theory Spec2Isabelle
  imports Main "HOL-Library.Multiset" "HOL-Library.List_Lexorder" "HOL-Library.Char_ord"
begin

section \<open>The generic tree: JavaScript values as the XML codec hands them over\<close>

text \<open>
  The library works on the untyped tree that the XML codec returns and mutates it in
  place. The tree is modelled as a value: an object is an association list in insertion
  order, an array carries its elements and, as every JavaScript array can, named
  properties of its own. Numbers are only ever tested for truthiness by this code, so
  they are integers plus \<open>NaN\<close>. Mutation in place becomes a function that returns
  the updated value; the trees are trees (no object is reachable along two paths).

  Property names are the names of data fields: no name used here is an array index,
  \<open>length\<close>, or a member inherited from a prototype.
\<close>

datatype jv =
    Undefined
  | Null
  | Bool bool
  | Num int
  | NaN
  | Str string
  | Arr "jv list" "(string \<times> jv) list"
  | Obj "(string \<times> jv) list"

datatype err = TypeError | OutOfFuel

definition and_then :: "err + 'a \<Rightarrow> ('a \<Rightarrow> err + 'b) \<Rightarrow> err + 'b" where
  "and_then m f = (case m of Inl e \<Rightarrow> Inl e | Inr x \<Rightarrow> f x)"

text \<open>JavaScript truthiness (\<open>Boolean(v)\<close>, \<open>!v\<close>, \<open>v && ...\<close>).\<close>

fun truthy :: "jv \<Rightarrow> bool" where
  "truthy Undefined = False"
| "truthy Null = False"
| "truthy (Bool b) = b"
| "truthy (Num n) = (n \<noteq> 0)"
| "truthy NaN = False"
| "truthy (Str s) = (s \<noteq> [])"
| "truthy (Arr es ps) = True"
| "truthy (Obj ps) = True"

text \<open>\<open>Array.isArray(v)\<close>.\<close>

fun isArray :: "jv \<Rightarrow> bool" where
  "isArray (Arr es ps) = True"
| "isArray v = False"

text \<open>\<open>typeof v === "object"\<close> for a truthy \<open>v\<close> (null is excluded by the truthiness test
  that accompanies every use).\<close>

fun is_object :: "jv \<Rightarrow> bool" where
  "is_object (Arr es ps) = True"
| "is_object (Obj ps) = True"
| "is_object v = False"

text \<open>Own properties: reading a missing key gives \<open>undefined\<close>; writing replaces the
  value in place or appends the key.\<close>

fun lookup :: "(string \<times> jv) list \<Rightarrow> string \<Rightarrow> jv" where
  "lookup [] k = Undefined"
| "lookup (p # ps) k = (if fst p = k then snd p else lookup ps k)"

fun assign :: "(string \<times> jv) list \<Rightarrow> string \<Rightarrow> jv \<Rightarrow> (string \<times> jv) list" where
  "assign [] k v = [(k, v)]"
| "assign (p # ps) k v = (if fst p = k then (k, v) # ps else p # assign ps k v)"

text \<open>\<open>obj[k]\<close>: a TypeError on \<open>null\<close> and \<open>undefined\<close>, \<open>undefined\<close> on the other
  primitives.\<close>

fun get :: "jv \<Rightarrow> string \<Rightarrow> err + jv" where
  "get Undefined k = Inl TypeError"
| "get Null k = Inl TypeError"
| "get (Obj ps) k = Inr (lookup ps k)"
| "get (Arr es ps) k = Inr (lookup ps k)"
| "get v k = Inr Undefined"

text \<open>\<open>obj[k] = v\<close> in strict mode (every ES module is strict): a TypeError on every
  primitive.\<close>

fun put :: "jv \<Rightarrow> string \<Rightarrow> jv \<Rightarrow> err + jv" where
  "put (Obj ps) k v = Inr (Obj (assign ps k v))"
| "put (Arr es ps) k v = Inr (Arr es (assign ps k v))"
| "put w k v = Inl TypeError"

section \<open>helper.ts: normalization\<close>

text \<open>\<open>ensureArray(obj, propertyName)\<close>, returning the mutated \<open>obj\<close>.\<close>

definition ensureArray :: "jv \<Rightarrow> string \<Rightarrow> err + jv" where
  "ensureArray obj propertyName =
     and_then (get obj propertyName) (\<lambda>v.
       if truthy v \<and> \<not> isArray v then put obj propertyName (Arr [v] [])
       else if \<not> truthy v then put obj propertyName (Arr [] [])
       else Inr obj)"

text \<open>\<open>names.forEach((p) => ensureArray(obj, p))\<close>: the first TypeError ends the loop.\<close>

fun ensureArrays :: "jv \<Rightarrow> string list \<Rightarrow> err + jv" where
  "ensureArrays obj [] = Inr obj"
| "ensureArrays obj (p # ps) = and_then (ensureArray obj p) (\<lambda>obj'. ensureArrays obj' ps)"

text \<open>\<open>items.forEach(f)\<close> where \<open>f\<close> mutates the item it is given.\<close>

fun for_each :: "('a \<Rightarrow> err + 'b) \<Rightarrow> 'a list \<Rightarrow> err + 'b list" where
  "for_each f [] = Inr []"
| "for_each f (x # xs) =
     and_then (f x) (\<lambda>y. and_then (for_each f xs) (\<lambda>ys. Inr (y # ys)))"

subsection \<open>constants.ts: the schema table\<close>

definition FLOW_ARRAY_NODES :: "string list" where
  "FLOW_ARRAY_NODES =
     [''decisions'', ''actionCalls'', ''apexPluginCalls'', ''assignments'',
      ''collectionProcessors'', ''customErrors'', ''loops'', ''recordCreates'',
      ''recordDeletes'', ''recordLookups'', ''recordRollbacks'', ''recordUpdates'',
      ''screens'', ''subflows'', ''transforms'', ''waits'', ''orchestratedStages'']"

definition FLOW_ARRAY_PROPERTIES :: "string list" where
  "FLOW_ARRAY_PROPERTIES =
     FLOW_ARRAY_NODES @
     [''choices'', ''constants'', ''dynamicChoiceSets'', ''environments'', ''formulas'',
      ''processMetadataValues'', ''stages'', ''steps'', ''textTemplates'', ''variables'']"

datatype NestedArrayConfig =
  NestedArrayConfig
    (childArrays: "string list")
    (nestedConfig: "(string \<times> NestedArrayConfig) list option")
    (recursive: "string option")

definition leaf :: "string list \<Rightarrow> NestedArrayConfig" where
  "leaf cs = NestedArrayConfig cs None None"

definition NESTED_ARRAY_CONFIG :: "(string \<times> NestedArrayConfig) list" where
  "NESTED_ARRAY_CONFIG =
    [(''decisions'', NestedArrayConfig [''rules'']
        (Some [(''rules'', leaf [''conditions''])]) None),
     (''screens'', NestedArrayConfig [''fields'', ''actions'', ''rules'', ''triggers'']
        (Some [(''rules'', leaf [''conditions'', ''ruleActions'']),
               (''triggers'', leaf [''handlers'']),
               (''fields'', NestedArrayConfig
                  [''fields'', ''choiceReferences'', ''inputParameters'',
                   ''outputParameters'', ''dataTypeMappings'']
                  None (Some ''fields''))]) None),
     (''recordLookups'', leaf [''filters'', ''outputAssignments'', ''queriedFields'']),
     (''recordCreates'', leaf [''inputAssignments'']),
     (''recordUpdates'', leaf [''filters'', ''inputAssignments'']),
     (''recordDeletes'', leaf [''filters'']),
     (''assignments'', leaf [''assignmentItems'']),
     (''actionCalls'', leaf [''inputParameters'', ''outputParameters'', ''dataTypeMappings'']),
     (''apexPluginCalls'', leaf [''inputParameters'', ''outputParameters'']),
     (''subflows'', leaf [''inputAssignments'', ''outputAssignments'']),
     (''waits'', NestedArrayConfig [''waitEvents'']
        (Some [(''waitEvents'',
                leaf [''conditions'', ''filters'', ''inputParameters'', ''outputParameters''])])
        None),
     (''transforms'', NestedArrayConfig [''transformValues'']
        (Some [(''transformValues'', NestedArrayConfig [''transformValueActions'']
                  (Some [(''transformValueActions'', leaf [''inputParameters''])]) None)])
        None),
     (''orchestratedStages'', NestedArrayConfig
        [''stageSteps'', ''exitConditions'', ''exitActionInputParameters'',
         ''exitActionOutputParameters'']
        (Some [(''stageSteps'',
                leaf [''assignees'', ''entryConditions'', ''exitConditions'',
                      ''inputParameters'', ''outputParameters'',
                      ''entryActionInputParameters'', ''entryActionOutputParameters'',
                      ''exitActionInputParameters'', ''exitActionOutputParameters''])])
        None),
     (''start'', NestedArrayConfig [''filters'', ''scheduledPaths'', ''capabilityTypes'']
        (Some [(''capabilityTypes'', leaf [''inputs''])]) None),
     (''dynamicChoiceSets'', leaf [''filters'', ''outputAssignments'']),
     (''collectionProcessors'', leaf [''conditions'', ''mapItems'', ''sortOptions'']),
     (''customErrors'', leaf [''customErrorMessages''])]"

definition NESTED_SORT_CONFIG :: "(string \<times> string list) list" where
  "NESTED_SORT_CONFIG =
     [(''decisions'', [''rules'']), (''screens'', [''fields'', ''actions''])]"

subsection \<open>processPropertyArrays and processNestedArrays\<close>

text \<open>\<open>v.length > 0\<close>. An array has its element count, a string its length; on any
  other value \<open>length\<close> is an ordinary field, compared as a number.\<close>

fun length_positive :: "jv \<Rightarrow> bool" where
  "length_positive (Arr es ps) = (es \<noteq> [])"
| "length_positive (Str s) = (s \<noteq> [])"
| "length_positive (Obj ps) =
     (case lookup ps ''length'' of Num n \<Rightarrow> 0 < n | Bool b \<Rightarrow> b | _ \<Rightarrow> False)"
| "length_positive v = False"

text \<open>
  The temporary object of the recursive step holds the very array that the item holds,
  so what processing does to that array through the temporary object is done to the
  item's array. In a value model the array is read back from where the temporary object
  keeps it, \<open>tempObj[prop][0][recursive]\<close>.
\<close>

fun read_back :: "jv \<Rightarrow> string \<Rightarrow> string \<Rightarrow> jv \<Rightarrow> jv" where
  "read_back (Obj ps) prop r old =
     (case lookup ps prop of
        Arr (Obj qs # rest) aps \<Rightarrow> lookup qs r
      | _ \<Rightarrow> old)"
| "read_back t prop r old = old"

text \<open>
  \<open>processPropertyArrays(obj, prop, config)\<close>, returning the mutated \<open>obj\<close>. Its call of
  \<open>processNestedArrays\<close> on the temporary object is the parameter \<open>again\<close>, which
  \<open>processNestedArrays\<close> below instantiates with itself. \<open>processEntries\<close> is the loop
  \<open>Object.entries(table).forEach(([p, c]) => { if (obj[p]) processPropertyArrays(obj, p, c) })\<close>
  that the source runs on a nested configuration and on the schema table alike.
\<close>

fun processPropertyArrays ::
    "(jv \<Rightarrow> err + jv) \<Rightarrow> jv \<Rightarrow> string \<Rightarrow> NestedArrayConfig \<Rightarrow> err + jv"
  and processEntries ::
    "(jv \<Rightarrow> err + jv) \<Rightarrow> jv \<Rightarrow> (string \<times> NestedArrayConfig) list \<Rightarrow> err + jv"
where
  "processPropertyArrays again obj prop (NestedArrayConfig cas nc rc) =
     and_then (get obj prop) (\<lambda>v.
       if prop = ''start'' \<and> truthy v \<and> is_object v then
         and_then (ensureArrays v cas) (\<lambda>s1.
         and_then (case nc of None \<Rightarrow> Inr s1 | Some ncs \<Rightarrow> processEntries again s1 ncs) (\<lambda>s2.
         put obj prop s2))
       else
         and_then (ensureArray obj prop) (\<lambda>obj1.
         and_then (get obj1 prop) (\<lambda>v1.
           case v1 of
             Arr items aps \<Rightarrow>
               if items = [] then Inr obj1
               else
                 and_then
                   (for_each (\<lambda>item.
                      and_then (ensureArrays item cas) (\<lambda>i1.
                      and_then (case nc of None \<Rightarrow> Inr i1
                                | Some ncs \<Rightarrow> processEntries again i1 ncs) (\<lambda>i2.
                      case rc of
                        None \<Rightarrow> Inr i2
                      | Some r \<Rightarrow>
                          if r = [] then Inr i2
                          else
                            and_then (get i2 r) (\<lambda>rv.
                              if truthy rv \<and> length_positive rv then
                                and_then (again (Obj [(prop, Arr [Obj [(r, rv)]] [])])) (\<lambda>t.
                                put i2 r (read_back t prop r rv))
                              else Inr i2)))) items)
                   (\<lambda>items'. put obj1 prop (Arr items' aps))
           | _ \<Rightarrow> Inr obj1)))"
| "processEntries again obj [] = Inr obj"
| "processEntries again obj (e # rest) =
     and_then (get obj (fst e)) (\<lambda>v.
     and_then (if truthy v then processPropertyArrays again obj (fst e) (snd e) else Inr obj)
       (\<lambda>obj'. processEntries again obj' rest))"

text \<open>
  \<open>processNestedArrays(obj)\<close>. The function and \<open>processPropertyArrays\<close> call each
  other; the first argument bounds how many activations of \<open>processNestedArrays\<close> may be
  nested in one another, and running out of them is the error \<open>OutOfFuel\<close>.
\<close>

fun processNestedArrays :: "nat \<Rightarrow> jv \<Rightarrow> err + jv" where
  "processNestedArrays 0 obj = Inl OutOfFuel"
| "processNestedArrays (Suc n) obj =
     (if \<not> truthy obj \<or> \<not> is_object obj then Inr obj
      else processEntries (processNestedArrays n) obj NESTED_ARRAY_CONFIG)"

text \<open>\<open>ensureArrayProperties(flow)\<close>, returning the mutated \<open>flow\<close>.\<close>

definition ensureArrayProperties :: "nat \<Rightarrow> jv \<Rightarrow> err + jv" where
  "ensureArrayProperties n flow =
     and_then (ensureArrays flow FLOW_ARRAY_PROPERTIES) (processNestedArrays n)"

subsection \<open>sortByName and sortFlowArrays\<close>

text \<open>
  \<open>String.prototype.localeCompare\<close> belongs to the runtime and is a parameter \<open>lc\<close> of
  the model: it is called on a string with any value as its argument, which the runtime
  converts to a string itself, and it returns a negative number, zero or a positive
  number. The comparison function of \<open>sortByName\<close> reads \<open>a.name || ""\<close> on both
  sides and calls \<open>nameA.localeCompare(nameB)\<close>: a \<open>nameA\<close> that is truthy and not a
  string has no \<open>localeCompare\<close>, which is a TypeError.
\<close>

definition nameOrEmpty :: "jv \<Rightarrow> err + jv" where
  "nameOrEmpty a = and_then (get a ''name'') (\<lambda>n. Inr (if truthy n then n else Str []))"

definition compareNames :: "(string \<Rightarrow> jv \<Rightarrow> int) \<Rightarrow> jv \<Rightarrow> jv \<Rightarrow> err + int" where
  "compareNames lc a b =
     and_then (nameOrEmpty a) (\<lambda>nameA.
     and_then (nameOrEmpty b) (\<lambda>nameB.
       case nameA of Str x \<Rightarrow> Inr (lc x nameB) | _ \<Rightarrow> Inl TypeError))"

text \<open>
  \<open>Array.prototype.sort\<close> with a comparison function is a stable sort; \<open>undefined\<close>
  elements are never compared and end up last. The engine hands the comparison function
  the later of two elements first, so the first element of the array is never the
  receiver of \<open>localeCompare\<close> and every other element is, and an array of fewer than two
  elements is not compared at all. The elements are inserted one by one, from the left,
  into the elements sorted so far: an element goes in front of the first element it
  compares less than, behind every element it does not compare less than. For a
  consistent comparison function this is the order of every stable sort; for any other,
  ECMAScript leaves the order to the engine.
\<close>

fun insert_by :: "('a \<Rightarrow> 'a \<Rightarrow> err + int) \<Rightarrow> 'a \<Rightarrow> 'a list \<Rightarrow> err + 'a list" where
  "insert_by cmp x [] = Inr [x]"
| "insert_by cmp x (y # ys) =
     and_then (cmp x y) (\<lambda>c.
       if c < 0 then Inr (x # y # ys)
       else and_then (insert_by cmp x ys) (\<lambda>zs. Inr (y # zs)))"

fun sort_from :: "('a \<Rightarrow> 'a \<Rightarrow> err + int) \<Rightarrow> 'a list \<Rightarrow> 'a list \<Rightarrow> err + 'a list" where
  "sort_from cmp placed [] = Inr placed"
| "sort_from cmp placed (x # xs) =
     and_then (insert_by cmp x placed) (\<lambda>placed'. sort_from cmp placed' xs)"

definition stable_sort :: "('a \<Rightarrow> 'a \<Rightarrow> err + int) \<Rightarrow> 'a list \<Rightarrow> err + 'a list" where
  "stable_sort cmp xs = sort_from cmp [] xs"

definition array_sort :: "(jv \<Rightarrow> jv \<Rightarrow> err + int) \<Rightarrow> jv list \<Rightarrow> err + jv list" where
  "array_sort cmp es =
     and_then (stable_sort cmp (filter (\<lambda>e. e \<noteq> Undefined) es))
       (\<lambda>sorted. Inr (sorted @ filter (\<lambda>e. e = Undefined) es))"

text \<open>\<open>sortByName(arr)\<close>. The copy \<open>[...arr]\<close> has the elements of \<open>arr\<close> and none of its
  named properties.\<close>

definition sortByName :: "(string \<Rightarrow> jv \<Rightarrow> int) \<Rightarrow> jv \<Rightarrow> err + jv" where
  "sortByName lc arr =
     (if \<not> truthy arr \<or> \<not> isArray arr then Inr arr
      else case arr of
             Arr es aps \<Rightarrow> and_then (array_sort (compareNames lc) es) (\<lambda>sorted. Inr (Arr sorted []))
           | _ \<Rightarrow> Inr arr)"

text \<open>The object spread \<open>{ ...flow }\<close>: the own enumerable properties, which for an array
  or a string start with the indices in decimal.\<close>

definition digit :: "nat \<Rightarrow> char" where
  "digit d = char_of (48 + d)"

function dec :: "nat \<Rightarrow> string" where
  "dec n = (if n < 10 then [digit n] else dec (n div 10) @ [digit (n mod 10)])"
  by pat_completeness auto
termination
  by (relation "measure id") auto

fun spread :: "jv \<Rightarrow> (string \<times> jv) list" where
  "spread (Obj ps) = ps"
| "spread (Arr es ps) = zip (map dec [0..<length es]) es @ ps"
| "spread (Str s) = zip (map dec [0..<length s]) (map (\<lambda>c. Str [c]) s)"
| "spread v = []"

text \<open>\<open>sortFlowArrays(flow)\<close>: the body of the loop over \<open>FLOW_ARRAY_PROPERTIES\<close>, the loop,
  and the function.\<close>

definition sortProperty :: "(string \<Rightarrow> jv \<Rightarrow> int) \<Rightarrow> jv \<Rightarrow> string \<Rightarrow> err + jv" where
  "sortProperty lc sortedFlow prop =
     and_then (get sortedFlow prop) (\<lambda>v.
       if truthy v \<and> isArray v
       then and_then (sortByName lc v) (\<lambda>sorted. put sortedFlow prop sorted)
       else Inr sortedFlow)"

fun sortProperties :: "(string \<Rightarrow> jv \<Rightarrow> int) \<Rightarrow> jv \<Rightarrow> string list \<Rightarrow> err + jv" where
  "sortProperties lc sortedFlow [] = Inr sortedFlow"
| "sortProperties lc sortedFlow (prop # props) =
     and_then (sortProperty lc sortedFlow prop) (\<lambda>sf. sortProperties lc sf props)"

definition sortFlowArrays :: "(string \<Rightarrow> jv \<Rightarrow> int) \<Rightarrow> jv \<Rightarrow> err + jv" where
  "sortFlowArrays lc flow =
     (if \<not> truthy flow then Inr flow
      else sortProperties lc (Obj (spread flow)) FLOW_ARRAY_PROPERTIES)"

section \<open>nodes.ts: the node graph\<close>

text \<open>\<open>getFlowNodes(flow)\<close>: the entry node, then the elements of every node collection
  that is an array, without the falsy entries.\<close>

fun collectNodes :: "jv \<Rightarrow> string list \<Rightarrow> err + jv list" where
  "collectNodes flow [] = Inr []"
| "collectNodes flow (prop # props) =
     and_then (get flow prop) (\<lambda>nodeArray.
     and_then (collectNodes flow props) (\<lambda>more.
       case nodeArray of
         Arr es aps \<Rightarrow> Inr (es @ more)
       | _ \<Rightarrow> Inr more))"

definition getFlowNodes :: "jv \<Rightarrow> err + jv list" where
  "getFlowNodes flow =
     and_then (get flow ''start'') (\<lambda>start.
     and_then (collectNodes flow FLOW_ARRAY_NODES) (\<lambda>nodes.
     Inr (filter truthy (start # nodes))))"



text \<open>\<open>getConnectors(node)\<close>. \<open>memberConnectors node k\<close> is
  \<open>node[k].map((m) => m.connector)\<close> when \<open>node[k]\<close> is an array, and nothing otherwise.\<close>

definition memberConnectors :: "jv \<Rightarrow> string \<Rightarrow> err + jv list" where
  "memberConnectors node k =
     and_then (get node k) (\<lambda>members.
       case members of
         Arr es aps \<Rightarrow> for_each (\<lambda>m. get m ''connector'') es
       | _ \<Rightarrow> Inr [])"

definition getConnectors :: "jv \<Rightarrow> err + jv list" where
  "getConnectors node =
     and_then (get node ''connector'') (\<lambda>c1.
     and_then (get node ''defaultConnector'') (\<lambda>c2.
     and_then (get node ''nextValueConnector'') (\<lambda>c3.
     and_then (get node ''noMoreValuesConnector'') (\<lambda>c4.
     and_then (get node ''faultConnector'') (\<lambda>c5.
     and_then (memberConnectors node ''rules'') (\<lambda>rs.
     and_then (memberConnectors node ''scheduledPaths'') (\<lambda>ps.
     and_then (memberConnectors node ''waitEvents'') (\<lambda>ws.
     Inr (filter truthy ([c1, c2, c3, c4, c5] @ rs @ ps @ ws))))))))))"

text \<open>\<open>connector.targetReference === name\<close>, and the test
  \<open>getConnectors(node).some(...)\<close> of \<open>findParentFlowNodes\<close>.\<close>

definition targets :: "string \<Rightarrow> jv \<Rightarrow> err + bool" where
  "targets name connector =
     and_then (get connector ''targetReference'') (\<lambda>r. Inr (r = Str name))"

definition isParent :: "string \<Rightarrow> jv \<Rightarrow> err + bool" where
  "isParent childName node =
     and_then (getConnectors node) (\<lambda>cs.
     and_then (for_each (targets childName) cs) (\<lambda>bs. Inr (True \<in> set bs)))"

fun filter_result :: "('a \<Rightarrow> err + bool) \<Rightarrow> 'a list \<Rightarrow> err + 'a list" where
  "filter_result f [] = Inr []"
| "filter_result f (x # xs) =
     and_then (f x) (\<lambda>b.
     and_then (filter_result f xs) (\<lambda>ys. Inr (if b then x # ys else ys)))"

definition findParentFlowNodes :: "jv \<Rightarrow> string \<Rightarrow> err + jv list" where
  "findParentFlowNodes flow childName =
     and_then (getFlowNodes flow) (filter_result (isParent childName))"








section \<open>flow.ts: parse\<close>

text \<open>
  The XML codec is a parameter: on a text it returns a tree or throws an Error, given
  here by its message. What \<open>parse\<close> throws is one of:
  \<^item> \<open>NoFlowElement\<close>: the Error that \<open>parse\<close> creates with the message
    \<open>XML does not contain a Flow element\<close>, thrown again as it is by the catch block;
  \<^item> \<open>Codec m\<close>: an Error of the codec with message \<open>m\<close>, thrown again as it is;
  \<^item> \<open>ParseFailed c\<close>: the Error that the catch block creates, whose message is
    \<open>Failed to parse XML: \<close> followed by the message of \<open>c\<close>;
  \<^item> \<open>Engine e\<close>: a TypeError raised by the runtime while the tree is read or normalized
    (only ever seen inside \<open>ParseFailed\<close>; the runtime's messages are not the sentence
    above).
  The result \<open>None\<close> is the model running out of fuel in \<open>ensureArrayProperties\<close>.
\<close>

datatype thrown = NoFlowElement | Codec string | Engine err | ParseFailed thrown

definition NO_FLOW_MESSAGE :: string where
  "NO_FLOW_MESSAGE = ''XML does not contain a Flow element''"

text \<open>\<open>error.message === "XML does not contain a Flow element"\<close>.\<close>

fun has_no_flow_message :: "thrown \<Rightarrow> bool" where
  "has_no_flow_message NoFlowElement = True"
| "has_no_flow_message (Codec m) = (m = NO_FLOW_MESSAGE)"
| "has_no_flow_message (Engine e) = False"
| "has_no_flow_message (ParseFailed c) = False"

definition catch_block :: "thrown \<Rightarrow> (thrown + jv) option" where
  "catch_block error =
     Some (Inl (if has_no_flow_message error then error else ParseFailed error))"

definition parse :: "(string \<Rightarrow> string + jv) \<Rightarrow> nat \<Rightarrow> string \<Rightarrow> (thrown + jv) option" where
  "parse xmlLib_parse n xml =
     (case xmlLib_parse xml of
        Inl m \<Rightarrow> catch_block (Codec m)
      | Inr parsed \<Rightarrow>
          (case get parsed ''Flow'' of
             Inl e \<Rightarrow> catch_block (Engine e)
           | Inr flow \<Rightarrow>
               if \<not> truthy flow then catch_block NoFlowElement
               else (case ensureArrayProperties n flow of
                       Inl OutOfFuel \<Rightarrow> None
                     | Inl e \<Rightarrow> catch_block (Engine e)
                     | Inr flow' \<Rightarrow> Some (Inr flow'))))"

section \<open>Notions used in the statements\<close>

text \<open>The value of a field and the elements of an array, as total functions: a value
  without the field, or one that is no array, has none.\<close>

fun field :: "jv \<Rightarrow> string \<Rightarrow> jv" where
  "field (Obj ps) k = lookup ps k"
| "field (Arr es ps) k = lookup ps k"
| "field v k = Undefined"

fun elements :: "jv \<Rightarrow> jv list" where
  "elements (Arr es ps) = es"
| "elements v = []"

text \<open>
  The order of connectors as the specification words it: the direct connector, the
  default connector, the next-value connector, the no-more-values connector, the fault
  connector, then the connector of each rule, of each scheduled path and of each wait
  event; a slot that is not set contributes nothing.
\<close>

definition if_set :: "jv \<Rightarrow> jv list" where
  "if_set c = (if truthy c then [c] else [])"

definition connectors_in_order :: "jv \<Rightarrow> jv list" where
  "connectors_in_order node =
     if_set (field node ''connector'') @
     if_set (field node ''defaultConnector'') @
     if_set (field node ''nextValueConnector'') @
     if_set (field node ''noMoreValuesConnector'') @
     if_set (field node ''faultConnector'') @
     concat (map (\<lambda>rule. if_set (field rule ''connector'')) (elements (field node ''rules''))) @
     concat (map (\<lambda>path. if_set (field path ''connector''))
               (elements (field node ''scheduledPaths''))) @
     concat (map (\<lambda>event. if_set (field event ''connector''))
               (elements (field node ''waitEvents'')))"

text \<open>
  Sorting is stated for arrays of named elements: values that can be asked for a name
  (not null or undefined) and whose \<open>name\<close> field holds a string or nothing (undefined,
  or null as the codec gives for an empty element). \<open>name_key\<close> is the name the
  specification sorts such an element by, \<open>a.name ?? ""\<close>: the string in the \<open>name\<close>
  field, and the empty string when there is none.
\<close>

definition named :: "jv \<Rightarrow> bool" where
  "named e =
     (e \<noteq> Undefined \<and> e \<noteq> Null
      \<and> (case field e ''name'' of
            Str n \<Rightarrow> True | Undefined \<Rightarrow> True | Null \<Rightarrow> True | _ \<Rightarrow> False))"

definition name_key :: "jv \<Rightarrow> string" where
  "name_key e = (case field e ''name'' of Str n \<Rightarrow> n | _ \<Rightarrow> [])"

abbreviation le_name :: "(string \<Rightarrow> jv \<Rightarrow> int) \<Rightarrow> jv \<Rightarrow> jv \<Rightarrow> bool" where
  "le_name lc a b \<equiv> lc (name_key a) (Str (name_key b)) \<le> 0"

text \<open>
  What a comparison of strings owes \<open>Array.prototype.sort\<close>: it is consistent, that is,
  exchanging the arguments exchanges the sign, and not-greater is transitive. A
  comparison puts the empty string first when the empty string compares less than every
  other string. \<open>codeunit_compare\<close> is one such comparison, the order of the code units
  of two strings, with which the statements are tried on concrete arrays.
\<close>

definition consistent :: "(string \<Rightarrow> jv \<Rightarrow> int) \<Rightarrow> bool" where
  "consistent lc =
     ((\<forall>x y. (lc x (Str y) < 0) = (0 < lc y (Str x)))
      \<and> (\<forall>x y z. lc x (Str y) \<le> 0 \<longrightarrow> lc y (Str z) \<le> 0 \<longrightarrow> lc x (Str z) \<le> 0))"

definition empty_first :: "(string \<Rightarrow> jv \<Rightarrow> int) \<Rightarrow> bool" where
  "empty_first lc = (\<forall>n. n \<noteq> [] \<longrightarrow> lc [] (Str n) < 0)"

definition codeunit_compare :: "string \<Rightarrow> jv \<Rightarrow> int" where
  "codeunit_compare x v =
     (case v of Str y \<Rightarrow> (if x < y then - 1 else if y < x then 1 else 0) | _ \<Rightarrow> 0)"

text \<open>
  Notions for the normalization proofs. \<open>putv\<close> is \<open>put\<close> as a total function and
  \<open>arrayify\<close> is what \<open>ensureArray\<close> makes of the value of a field.
\<close>

fun putv :: "jv \<Rightarrow> string \<Rightarrow> jv \<Rightarrow> jv" where
  "putv (Obj ps) k v = Obj (assign ps k v)"
| "putv (Arr es ps) k v = Arr es (assign ps k v)"
| "putv w k v = w"

definition arrayify :: "jv \<Rightarrow> jv" where
  "arrayify v = (if isArray v then v else if truthy v then Arr [v] [] else Arr [] [])"

text \<open>
  The parts of \<open>processPropertyArrays\<close>, named: the loop over the nested configuration,
  the recursive step on an element, all that is done to an element, and all that is done
  to the value of the field (the entry node itself, or the array and its elements).
\<close>

definition entries_step ::
    "(jv \<Rightarrow> err + jv) \<Rightarrow> (string \<times> NestedArrayConfig) list option \<Rightarrow> jv \<Rightarrow> err + jv" where
  "entries_step again nc obj =
     (case nc of None \<Rightarrow> Inr obj | Some ncs \<Rightarrow> processEntries again obj ncs)"

definition recursive_step ::
    "(jv \<Rightarrow> err + jv) \<Rightarrow> string \<Rightarrow> string option \<Rightarrow> jv \<Rightarrow> err + jv" where
  "recursive_step again prop rc i2 =
     (case rc of
        None \<Rightarrow> Inr i2
      | Some r \<Rightarrow>
          if r = [] then Inr i2
          else
            and_then (get i2 r) (\<lambda>rv.
              if truthy rv \<and> length_positive rv then
                and_then (again (Obj [(prop, Arr [Obj [(r, rv)]] [])])) (\<lambda>t.
                put i2 r (read_back t prop r rv))
              else Inr i2))"

definition item_step ::
    "(jv \<Rightarrow> err + jv) \<Rightarrow> string \<Rightarrow> NestedArrayConfig \<Rightarrow> jv \<Rightarrow> err + jv" where
  "item_step again prop config item =
     and_then (ensureArrays item (childArrays config)) (\<lambda>i1.
     and_then (entries_step again (nestedConfig config) i1) (\<lambda>i2.
     recursive_step again prop (recursive config) i2))"

definition value_step ::
    "(jv \<Rightarrow> err + jv) \<Rightarrow> string \<Rightarrow> NestedArrayConfig \<Rightarrow> jv \<Rightarrow> err + jv" where
  "value_step again prop config v =
     (if prop = ''start'' \<and> truthy v \<and> is_object v then
        and_then (ensureArrays v (childArrays config)) (entries_step again (nestedConfig config))
      else if elements (arrayify v) = [] then Inr (arrayify v)
      else and_then (for_each (item_step again prop config) (elements (arrayify v)))
             (\<lambda>items'. Inr (case arrayify v of Arr items aps \<Rightarrow> Arr items' aps | w \<Rightarrow> w)))"

text \<open>
  What the proofs need of a schema table: the keys of one level are distinct, the entry
  of the entry node declares child arrays, and an entry that is marked recursive is not
  stored under a key of the table, so that the temporary object of the recursive step
  has no field that \<open>processNestedArrays\<close> looks at. \<open>noop_on_temporaries\<close> says of a
  function that it returns such temporary objects as they are.
\<close>

fun wf_config :: "string \<Rightarrow> NestedArrayConfig \<Rightarrow> bool"
  and wf_entries :: "(string \<times> NestedArrayConfig) list \<Rightarrow> bool"
where
  "wf_config prop (NestedArrayConfig cas nc rc) =
     ((prop = ''start'' \<longrightarrow> cas \<noteq> [])
      \<and> (rc \<noteq> None \<longrightarrow> prop \<notin> set (map fst NESTED_ARRAY_CONFIG))
      \<and> (case nc of None \<Rightarrow> True | Some ncs \<Rightarrow> wf_entries ncs))"
| "wf_entries [] = True"
| "wf_entries (e # rest) =
     (fst e \<notin> set (map fst rest) \<and> wf_config (fst e) (snd e) \<and> wf_entries rest)"

definition noop_on_temporaries :: "(jv \<Rightarrow> err + jv) \<Rightarrow> bool" where
  "noop_on_temporaries again =
     (\<forall>p x. p \<notin> set (map fst NESTED_ARRAY_CONFIG) \<longrightarrow> again (Obj [(p, x)]) = Inr (Obj [(p, x)]))"

text \<open>
  Two values have the same shape when they are of the same kind, with the same elements
  if they are arrays. A step settles when running it again on its result changes
  nothing.
\<close>

definition same_shape :: "jv \<Rightarrow> jv \<Rightarrow> bool" where
  "same_shape a b =
     (is_object b = is_object a \<and> isArray b = isArray a \<and> elements b = elements a
      \<and> (\<not> is_object a \<longrightarrow> b = a))"

definition value_settles :: "string \<Rightarrow> NestedArrayConfig \<Rightarrow> bool" where
  "value_settles p config =
     (\<forall>v v'. truthy v \<longrightarrow> value_step Inr p config v = Inr v' \<longrightarrow>
        value_step Inr p config v' = Inr v' \<and> truthy v' \<and> (isArray v \<longrightarrow> isArray v'))"

definition entries_settle :: "(string \<times> NestedArrayConfig) list option \<Rightarrow> bool" where
  "entries_settle nc =
     (\<forall>obj obj'. entries_step Inr nc obj = Inr obj' \<longrightarrow>
        entries_step Inr nc obj' = Inr obj' \<and> same_shape obj obj'
        \<and> (\<forall>k. isArray (field obj k) \<longrightarrow> isArray (field obj' k)))"

text \<open>
  A node can be asked for its connectors when it is not null or undefined and neither
  is any element of its \<open>rules\<close>, \<open>scheduledPaths\<close> and \<open>waitEvents\<close> arrays.
\<close>

definition members_ok :: "jv \<Rightarrow> string \<Rightarrow> bool" where
  "members_ok node k = (\<forall>m \<in> set (elements (field node k)). m \<noteq> Undefined \<and> m \<noteq> Null)"

definition connectors_ok :: "jv \<Rightarrow> bool" where
  "connectors_ok node =
     (node \<noteq> Undefined \<and> node \<noteq> Null \<and> members_ok node ''rules''
      \<and> members_ok node ''scheduledPaths'' \<and> members_ok node ''waitEvents'')"

text \<open>
  The nodes of a document as the specification lists them: the entry node, then the
  elements of every node collection in the order of \<open>FLOW_ARRAY_NODES\<close>, those that are
  set.
\<close>

definition nodes_of :: "jv \<Rightarrow> jv list" where
  "nodes_of flow =
     filter truthy
       (field flow ''start'' # concat (map (\<lambda>prop. elements (field flow prop)) FLOW_ARRAY_NODES))"

text \<open>
  Reparenting as a function of the tree. \<open>retargeted\<close> is a connector after
  reparenting: pointed at the target if it pointed at the source, itself otherwise.
  \<open>rewired\<close> is a node with each of its connectors retargeted at its place, and
  \<open>moved_flow\<close> is a document with each of its nodes rewired at its place.
\<close>

definition retargeted :: "string \<Rightarrow> string \<Rightarrow> jv \<Rightarrow> jv" where
  "retargeted s t c =
     (if field c ''targetReference'' = Str s then putv c ''targetReference'' (Str t) else c)"

definition rewired_slot :: "string \<Rightarrow> string \<Rightarrow> jv \<Rightarrow> string \<Rightarrow> jv" where
  "rewired_slot s t holder k =
     (if truthy (field holder k) then putv holder k (retargeted s t (field holder k)) else holder)"

definition rewired_members :: "string \<Rightarrow> string \<Rightarrow> jv \<Rightarrow> string \<Rightarrow> jv" where
  "rewired_members s t node k =
     (case field node k of
        Arr es aps \<Rightarrow> putv node k (Arr (map (\<lambda>m. rewired_slot s t m ''connector'') es) aps)
      | _ \<Rightarrow> node)"

definition rewired :: "string \<Rightarrow> string \<Rightarrow> jv \<Rightarrow> jv" where
  "rewired s t node =
     rewired_members s t
       (rewired_members s t
          (rewired_members s t
             (rewired_slot s t
                (rewired_slot s t
                   (rewired_slot s t
                      (rewired_slot s t
                         (rewired_slot s t node ''connector'')
                         ''defaultConnector'')
                      ''nextValueConnector'')
                   ''noMoreValuesConnector'')
                ''faultConnector'')
             ''rules'')
          ''scheduledPaths'')
       ''waitEvents''"

definition moved :: "string \<Rightarrow> string \<Rightarrow> jv \<Rightarrow> jv" where
  "moved s t node = (if truthy node then rewired s t node else node)"

definition moved_collection :: "string \<Rightarrow> string \<Rightarrow> jv \<Rightarrow> string \<Rightarrow> jv" where
  "moved_collection s t flow prop =
     (case field flow prop of
        Arr es aps \<Rightarrow> putv flow prop (Arr (map (moved s t) es) aps)
      | _ \<Rightarrow> flow)"

fun moved_collections :: "string \<Rightarrow> string \<Rightarrow> jv \<Rightarrow> string list \<Rightarrow> jv" where
  "moved_collections s t flow [] = flow"
| "moved_collections s t flow (prop # props) =
     moved_collections s t (moved_collection s t flow prop) props"

definition moved_flow :: "string \<Rightarrow> string \<Rightarrow> jv \<Rightarrow> jv" where
  "moved_flow s t flow =
     moved_collections s t
       (if truthy (field flow ''start'') then putv flow ''start'' (moved s t (field flow ''start''))
        else flow)
       FLOW_ARRAY_NODES"

section \<open>Properties\<close>

lemma and_then_simps:
  "and_then (Inl e) f = Inl e"
  "and_then (Inr x) f = f x"
  by (simp_all add: and_then_def)

lemma falsy_values:
  "(\<not> truthy v) = (v \<in> {Undefined, Null, Bool False, Num 0, NaN, Str []})"
  by (cases v) auto

text \<open>
  C9. On an object, \<open>ensureArray\<close> replaces every falsy value of the field (absent,
  null, false, 0, NaN and the empty string: these are all the falsy values) by the empty
  array, so the value is discarded and not wrapped; a truthy value that is not an array
  is wrapped in a one-element array; an array is left as it is.
\<close>

theorem ensureArray_falsy_discarded:
  "(lookup ps p \<in> {Undefined, Null, Bool False, Num 0, NaN, Str []} \<longrightarrow>
      ensureArray (Obj ps) p = Inr (Obj (assign ps p (Arr [] []))))
   \<and> (truthy (lookup ps p) \<and> \<not> isArray (lookup ps p) \<longrightarrow>
      ensureArray (Obj ps) p = Inr (Obj (assign ps p (Arr [lookup ps p] []))))
   \<and> (isArray (lookup ps p) \<longrightarrow> ensureArray (Obj ps) p = Inr (Obj ps))
   \<and> (\<not> truthy (lookup ps p)) = (lookup ps p \<in> {Undefined, Null, Bool False, Num 0, NaN, Str []})"
proof -
  have t: "isArray (lookup ps p) \<Longrightarrow> truthy (lookup ps p)"
    by (cases "lookup ps p") simp_all
  show ?thesis
    using t by (auto simp: ensureArray_def and_then_simps falsy_values)
qed

theorem ensureArray_falsy_discarded_witness:
  "ensureArray (Obj [(''a'', Str []), (''b'', Num 0)]) ''b''
     = Inr (Obj [(''a'', Str []), (''b'', Arr [] [])])
   \<and> ensureArray (Obj [(''a'', Bool False)]) ''a'' = Inr (Obj [(''a'', Arr [] [])])
   \<and> ensureArray (Obj [(''a'', Str ''x'')]) ''a'' = Inr (Obj [(''a'', Arr [Str ''x''] [])])
   \<and> ensureArray (Obj [(''a'', Arr [Num 0] [])]) ''a'' = Inr (Obj [(''a'', Arr [Num 0] [])])"
  using ensureArray_falsy_discarded [of "[(''a'', Str []), (''b'', Num 0)]" "''b''"]
    ensureArray_falsy_discarded [of "[(''a'', Bool False)]" "''a''"]
    ensureArray_falsy_discarded [of "[(''a'', Str ''x'')]" "''a''"]
    ensureArray_falsy_discarded [of "[(''a'', Arr [Num 0] [])]" "''a''"]
  by simp

subsection \<open>Reading fields and running loops\<close>

lemma get_Inr_iff: "(get obj k = Inr v) = (obj \<noteq> Undefined \<and> obj \<noteq> Null \<and> v = field obj k)"
  by (cases obj) auto

lemma and_then_Inr_iff:
  "(and_then m f = Inr y) = (\<exists>x. m = Inr x \<and> f x = Inr y)"
  by (cases m) (simp_all add: and_then_simps)

lemma for_each_Inr:
  "for_each f xs = Inr ys \<Longrightarrow>
   length ys = length xs \<and> (\<forall>i < length xs. f (xs ! i) = Inr (ys ! i))"
proof (induction xs arbitrary: ys)
  case Nil
  then show ?case by simp
next
  case (Cons x xs)
  then obtain y ys' where a: "f x = Inr y" "for_each f xs = Inr ys'" "ys = y # ys'"
    by (auto simp: and_then_Inr_iff)
  show ?case using Cons.IH[OF a(2)] a by (auto simp: nth_Cons split: nat.splits)
qed

subsection \<open>getConnectors\<close>

lemma filter_truthy_map:
  "filter truthy (map (\<lambda>m. field m k) es) = concat (map (\<lambda>m. if_set (field m k)) es)"
  by (induction es) (auto simp: if_set_def)

lemma filter_truthy_Cons: "filter truthy (c # cs) = if_set c @ filter truthy cs"
  by (simp add: if_set_def)

lemma getConnectors_Inr:
  "getConnectors node = Inr cs \<Longrightarrow>
   \<exists>rs ps ws. memberConnectors node ''rules'' = Inr rs
     \<and> memberConnectors node ''scheduledPaths'' = Inr ps
     \<and> memberConnectors node ''waitEvents'' = Inr ws
     \<and> cs = filter truthy ([field node ''connector'', field node ''defaultConnector'',
         field node ''nextValueConnector'', field node ''noMoreValuesConnector'',
         field node ''faultConnector''] @ rs @ ps @ ws)"
  unfolding getConnectors_def
  by (simp only: and_then_Inr_iff get_Inr_iff) blast

subsection \<open>Degenerate input of the sorting functions\<close>

text \<open>
  C10. \<open>sortByName\<close> returns null, undefined and every value that is not an array
  unchanged, and \<open>sortFlowArrays\<close> returns null and undefined unchanged; none of these
  calls raises an error.
\<close>

theorem sort_degenerate_input_unchanged:
  "sortByName lc Null = Inr Null \<and> sortByName lc Undefined = Inr Undefined
   \<and> (\<not> isArray v \<longrightarrow> sortByName lc v = Inr v)
   \<and> sortFlowArrays lc Null = Inr Null \<and> sortFlowArrays lc Undefined = Inr Undefined"
  by (simp add: sortByName_def sortFlowArrays_def)

theorem sort_degenerate_input_unchanged_witness:
  "\<not> isArray (Str ''abc'') \<and> sortByName (\<lambda>x y. 0) (Str ''abc'') = Inr (Str ''abc'')
   \<and> \<not> isArray (Obj [(''name'', Str ''n'')])
   \<and> sortByName (\<lambda>x y. 0) (Obj [(''name'', Str ''n'')]) = Inr (Obj [(''name'', Str ''n'')])
   \<and> sortFlowArrays (\<lambda>x y. 0) Null = Inr Null"
  using sort_degenerate_input_unchanged [of "\<lambda>x y. 0" "Str ''abc''"]
    sort_degenerate_input_unchanged [of "\<lambda>x y. 0" "Obj [(''name'', Str ''n'')]"]
  by simp

subsection \<open>sortByName\<close>

lemma named_nameOrEmpty: "named e \<Longrightarrow> nameOrEmpty e = Inr (Str (name_key e))"
  by (cases e; cases "field e ''name''")
     (auto simp: named_def name_key_def nameOrEmpty_def and_then_simps)

lemma compareNames_named:
  "named a \<Longrightarrow> named b \<Longrightarrow> compareNames lc a b = Inr (lc (name_key a) (Str (name_key b)))"
  by (simp add: compareNames_def named_nameOrEmpty and_then_simps)

lemma named_not_Undefined: "named e \<Longrightarrow> e \<noteq> Undefined"
  by (simp add: named_def)

lemma consistent_refl:
  assumes "consistent lc"
  shows "lc x (Str x) = 0"
proof -
  have "(lc x (Str x) < 0) = (0 < lc x (Str x))" using assms unfolding consistent_def by blast
  then show ?thesis by arith
qed

lemma consistent_flip:
  assumes "consistent lc" and "\<not> lc x (Str y) < 0"
  shows "lc y (Str x) \<le> 0"
proof -
  have "(lc x (Str y) < 0) = (0 < lc y (Str x))" using assms(1) unfolding consistent_def by blast
  then show ?thesis using assms(2) by arith
qed

lemma consistent_less:
  assumes "consistent lc" and "lc x (Str y) < 0"
  shows "\<not> lc y (Str x) \<le> 0"
proof -
  have "(lc x (Str y) < 0) = (0 < lc y (Str x))" using assms(1) unfolding consistent_def by blast
  then show ?thesis using assms(2) by arith
qed

lemma consistent_trans:
  "consistent lc \<Longrightarrow> lc x (Str y) \<le> 0 \<Longrightarrow> lc y (Str z) \<le> 0 \<Longrightarrow> lc x (Str z) \<le> 0"
  unfolding consistent_def by blast

lemma consistent_equal_class:
  assumes c: "consistent lc" and x: "lc x (Str k) = 0" and y: "lc y (Str k) = 0"
  shows "lc x (Str y) \<le> 0"
proof -
  have "\<not> lc y (Str k) < 0" using y by simp
  then have "lc k (Str y) \<le> 0" by (rule consistent_flip[OF c])
  then show ?thesis using consistent_trans[OF c, of x k y] x by simp
qed

lemma insert_by_named:
  assumes c: "consistent lc" and x: "named x"
  shows "\<forall>y \<in> set ys. named y \<Longrightarrow> sorted_wrt (le_name lc) ys \<Longrightarrow>
     \<exists>zs. insert_by (compareNames lc) x ys = Inr zs
        \<and> mset zs = mset (x # ys)
        \<and> sorted_wrt (le_name lc) zs
        \<and> (\<forall>k. filter (\<lambda>e. lc (name_key e) (Str k) = 0) zs
               = filter (\<lambda>e. lc (name_key e) (Str k) = 0) (ys @ [x]))"
proof (induction ys)
  case Nil
  then show ?case by simp
next
  case (Cons y ys)
  have ny: "named y" and nys: "\<forall>y \<in> set ys. named y" using Cons.prems by auto
  have sy: "\<forall>z \<in> set ys. le_name lc y z" and sys: "sorted_wrt (le_name lc) ys"
    using Cons.prems by auto
  show ?case
  proof (cases "lc (name_key x) (Str (name_key y)) < 0")
    case True
    have xy: "le_name lc x y" using True by simp
    have xz: "\<forall>z \<in> set ys. le_name lc x z"
      using sy xy consistent_trans[OF c] by blast
    have f: "filter (\<lambda>e. lc (name_key e) (Str k) = 0) (x # y # ys)
        = filter (\<lambda>e. lc (name_key e) (Str k) = 0) ((y # ys) @ [x])" for k
    proof (cases "lc (name_key x) (Str k) = 0")
      case False
      then show ?thesis by simp
    next
      case xk: True
      have "lc (name_key z) (Str k) \<noteq> 0" if z: "z \<in> set (y # ys)" for z
      proof
        assume zk: "lc (name_key z) (Str k) = 0"
        have zx: "le_name lc z x" using consistent_equal_class[OF c zk xk] .
        have yz: "le_name lc y z"
          using z sy consistent_refl[OF c, of "name_key y"] by auto
        have "le_name lc y x" using consistent_trans[OF c yz zx] .
        then show False using consistent_less[OF c True] by simp
      qed
      then have e: "filter (\<lambda>e. lc (name_key e) (Str k) = 0) (y # ys) = []"
        unfolding filter_empty_conv by blast
      have "filter (\<lambda>e. lc (name_key e) (Str k) = 0) (x # y # ys)
          = x # filter (\<lambda>e. lc (name_key e) (Str k) = 0) (y # ys)"
        using xk by simp
      moreover have "filter (\<lambda>e. lc (name_key e) (Str k) = 0) ((y # ys) @ [x])
          = filter (\<lambda>e. lc (name_key e) (Str k) = 0) (y # ys) @ [x]"
        using xk by simp
      ultimately show ?thesis unfolding e by simp
    qed
    have "insert_by (compareNames lc) x (y # ys) = Inr (x # y # ys)"
      using True by (simp add: compareNames_named x ny and_then_simps)
    moreover have "sorted_wrt (le_name lc) (x # y # ys)"
      using xy xz sy sys by simp
    ultimately show ?thesis using f by (intro exI[of _ "x # y # ys"]) simp
  next
    case False
    from Cons.IH[OF nys sys] obtain zs where
      zs: "insert_by (compareNames lc) x ys = Inr zs" "mset zs = mset (x # ys)"
        "sorted_wrt (le_name lc) zs"
        "\<forall>k. filter (\<lambda>e. lc (name_key e) (Str k) = 0) zs
            = filter (\<lambda>e. lc (name_key e) (Str k) = 0) (ys @ [x])"
      by blast
    have yx: "le_name lc y x" using consistent_flip[OF c False] .
    have "set zs = set (x # ys)" using zs(2) by (rule mset_eq_setD)
    then have "set zs = insert x (set ys)" by simp
    then have s: "sorted_wrt (le_name lc) (y # zs)" using zs(3) yx sy by auto
    have f: "filter (\<lambda>e. lc (name_key e) (Str k) = 0) (y # zs)
        = filter (\<lambda>e. lc (name_key e) (Str k) = 0) ((y # ys) @ [x])" for k
      using zs(4)[rule_format, of k] by simp
    have "insert_by (compareNames lc) x (y # ys) = Inr (y # zs)"
      using False zs(1) by (simp add: compareNames_named x ny and_then_simps)
    moreover have "mset (y # zs) = mset (x # y # ys)" using zs(2) by simp
    ultimately show ?thesis using s f by (intro exI[of _ "y # zs"]) simp
  qed
qed

lemma sort_from_named:
  assumes c: "consistent lc"
  shows "\<forall>y \<in> set xs. named y \<Longrightarrow> \<forall>y \<in> set placed. named y \<Longrightarrow>
     sorted_wrt (le_name lc) placed \<Longrightarrow>
     \<exists>zs. sort_from (compareNames lc) placed xs = Inr zs
        \<and> mset zs = mset (placed @ xs)
        \<and> sorted_wrt (le_name lc) zs
        \<and> (\<forall>k. filter (\<lambda>e. lc (name_key e) (Str k) = 0) zs
               = filter (\<lambda>e. lc (name_key e) (Str k) = 0) (placed @ xs))"
proof (induction xs arbitrary: placed)
  case Nil
  then show ?case by simp
next
  case (Cons x xs)
  have x: "named x" and nxs: "\<forall>y \<in> set xs. named y" using Cons.prems(1) by auto
  from insert_by_named[OF c x Cons.prems(2,3)] obtain ps where
    ps: "insert_by (compareNames lc) x placed = Inr ps" "mset ps = mset (x # placed)"
        "sorted_wrt (le_name lc) ps"
        "\<forall>k. filter (\<lambda>e. lc (name_key e) (Str k) = 0) ps
            = filter (\<lambda>e. lc (name_key e) (Str k) = 0) (placed @ [x])"
    by blast
  have "set ps = set (x # placed)" using ps(2) by (rule mset_eq_setD)
  then have n: "\<forall>y \<in> set ps. named y" using Cons.prems(2) x by simp
  from Cons.IH[OF nxs n ps(3)] obtain zs where
    zs: "sort_from (compareNames lc) ps xs = Inr zs" "mset zs = mset (ps @ xs)"
        "sorted_wrt (le_name lc) zs"
        "\<forall>k. filter (\<lambda>e. lc (name_key e) (Str k) = 0) zs
            = filter (\<lambda>e. lc (name_key e) (Str k) = 0) (ps @ xs)"
    by blast
  have "sort_from (compareNames lc) placed (x # xs) = Inr zs"
    using ps(1) zs(1) by (simp add: and_then_simps)
  moreover have "mset zs = mset (placed @ x # xs)" using zs(2) ps(2) by simp
  moreover have "\<forall>k. filter (\<lambda>e. lc (name_key e) (Str k) = 0) zs
      = filter (\<lambda>e. lc (name_key e) (Str k) = 0) (placed @ x # xs)"
    using zs(4) ps(4) by simp
  ultimately show ?case using zs(3) by (intro exI[of _ zs]) simp
qed

text \<open>
  C5. For a consistent locale comparison and an array of named elements, \<open>sortByName\<close>
  returns an array with the same elements in which every adjacent pair \<open>(a, b)\<close> has
  \<open>compare(a.name ?? "", b.name ?? "") \<le> 0\<close>. The name the code compares an element
  by, \<open>a.name || ""\<close>, is that name: an element whose name is missing or empty is
  sorted as the empty string. Such an element comes before every element whose name
  compares greater than the empty string; so, when the comparison puts the empty string
  first, before every element that has a name. The sort is stable: the elements that
  compare equal to any given name are in the order in which the input has them.
\<close>

theorem sortByName_sorted_stable:
  assumes c: "consistent lc" and n: "\<forall>e \<in> set es. named e"
  shows "\<exists>out. sortByName lc (Arr es aps) = Inr (Arr out [])
           \<and> mset out = mset es
           \<and> (\<forall>e \<in> set es. nameOrEmpty e = Inr (Str (name_key e)))
           \<and> (\<forall>i. Suc i < length out \<longrightarrow>
                  lc (name_key (out ! i)) (Str (name_key (out ! Suc i))) \<le> 0)
           \<and> (\<forall>i j. i < length out \<and> j < length out \<and> name_key (out ! i) = []
                  \<and> 0 < lc (name_key (out ! j)) (Str []) \<longrightarrow> i < j)
           \<and> (empty_first lc \<longrightarrow>
                (\<forall>i j. i < length out \<and> j < length out \<and> name_key (out ! i) = []
                  \<and> name_key (out ! j) \<noteq> [] \<longrightarrow> i < j))
           \<and> (\<forall>k. filter (\<lambda>e. lc (name_key e) (Str k) = 0) out
                  = filter (\<lambda>e. lc (name_key e) (Str k) = 0) es)"
proof -
  have "\<forall>y \<in> set ([] :: jv list). named y" "sorted_wrt (le_name lc) []" by simp_all
  from sort_from_named[OF c n this] obtain out where
    out: "sort_from (compareNames lc) [] es = Inr out" "mset out = mset es"
        "sorted_wrt (le_name lc) out"
        "\<forall>k. filter (\<lambda>e. lc (name_key e) (Str k) = 0) out
            = filter (\<lambda>e. lc (name_key e) (Str k) = 0) es"
    by auto
  have u: "filter (\<lambda>e. e \<noteq> Undefined) es = es" "filter (\<lambda>e. e = Undefined) es = []"
    using n named_not_Undefined by (auto simp: filter_id_conv filter_empty_conv)
  have s: "sortByName lc (Arr es aps) = Inr (Arr out [])"
    by (simp add: sortByName_def array_sort_def stable_sort_def u out(1) and_then_simps)
  have key: "\<forall>e \<in> set es. nameOrEmpty e = Inr (Str (name_key e))"
    using n named_nameOrEmpty by blast
  have lt: "le_name lc (out ! i) (out ! j)" if "i < j" "j < length out" for i j
    using sorted_wrt_nth_less[OF out(3) that] .
  have adj: "\<forall>i. Suc i < length out \<longrightarrow>
      lc (name_key (out ! i)) (Str (name_key (out ! Suc i))) \<le> 0"
    using lt by simp
  have first: "i < j" if "i < length out" "j < length out" "name_key (out ! i) = []"
      "0 < lc (name_key (out ! j)) (Str [])" for i j
  proof (rule ccontr)
    assume "\<not> i < j"
    then consider "j < i" | "j = i" by arith
    then show False
    proof cases
      case 1
      from lt[OF 1 that(1)] that(3,4) show False by simp
    next
      case 2
      then show False using that(3,4) consistent_refl[OF c, of "[]"] by simp
    qed
  qed
  have nameless: "i < j" if e: "empty_first lc" and "i < length out" "j < length out"
      "name_key (out ! i) = []" "name_key (out ! j) \<noteq> []" for i j
  proof -
    have "lc [] (Str (name_key (out ! j))) < 0"
      using e that(5) unfolding empty_first_def by blast
    then have "\<not> lc (name_key (out ! j)) (Str []) \<le> 0" by (rule consistent_less[OF c])
    then have "0 < lc (name_key (out ! j)) (Str [])" by simp
    then show ?thesis using first that(2,3,4) by blast
  qed
  show ?thesis
  proof (intro exI[of _ out] conjI)
    show "\<forall>i j. i < length out \<and> j < length out \<and> name_key (out ! i) = []
                  \<and> 0 < lc (name_key (out ! j)) (Str []) \<longrightarrow> i < j"
      using first by blast
    show "empty_first lc \<longrightarrow>
                (\<forall>i j. i < length out \<and> j < length out \<and> name_key (out ! i) = []
                  \<and> name_key (out ! j) \<noteq> [] \<longrightarrow> i < j)"
      using nameless by blast
  qed (fact s out(2) key adj out(4))+
qed

lemma codeunit_compare_consistent: "consistent codeunit_compare"
  unfolding consistent_def codeunit_compare_def by (auto split: if_splits)

lemma codeunit_compare_empty_first: "empty_first codeunit_compare"
  unfolding empty_first_def codeunit_compare_def by (simp add: neq_Nil_conv) auto

theorem sortByName_sorted_stable_witness:
  "consistent codeunit_compare \<and> empty_first codeunit_compare
   \<and> named (Obj [(''name'', Str ''b''), (''v'', Num 1)])
   \<and> named (Obj [(''name'', Str ''a'')])
   \<and> named (Obj [(''v'', Num 2)])
   \<and> named (Obj [(''name'', Str []), (''v'', Num 3)])
   \<and> named (Obj [(''name'', Str ''b''), (''v'', Num 2)])
   \<and> sortByName codeunit_compare
        (Arr [Obj [(''name'', Str ''b''), (''v'', Num 1)], Obj [(''name'', Str ''a'')],
              Obj [(''v'', Num 2)], Obj [(''name'', Str []), (''v'', Num 3)],
              Obj [(''name'', Str ''b''), (''v'', Num 2)]] [])
      = Inr (Arr [Obj [(''v'', Num 2)], Obj [(''name'', Str []), (''v'', Num 3)],
                  Obj [(''name'', Str ''a'')], Obj [(''name'', Str ''b''), (''v'', Num 1)],
                  Obj [(''name'', Str ''b''), (''v'', Num 2)]] [])
   \<and> nameOrEmpty (Obj [(''v'', Num 2)]) = Inr (Str [])
   \<and> codeunit_compare (name_key (Obj [(''name'', Str []), (''v'', Num 3)]))
         (Str (name_key (Obj [(''name'', Str ''a'')]))) \<le> 0
   \<and> name_key (Obj [(''name'', Str []), (''v'', Num 3)]) = []
   \<and> name_key (Obj [(''name'', Str ''a'')]) \<noteq> []
   \<and> filter (\<lambda>e. codeunit_compare (name_key e) (Str ''b'') = 0)
        [Obj [(''v'', Num 2)], Obj [(''name'', Str []), (''v'', Num 3)],
         Obj [(''name'', Str ''a'')], Obj [(''name'', Str ''b''), (''v'', Num 1)],
         Obj [(''name'', Str ''b''), (''v'', Num 2)]]
      = [Obj [(''name'', Str ''b''), (''v'', Num 1)], Obj [(''name'', Str ''b''), (''v'', Num 2)]]"
proof -
  let ?es = "[Obj [(''name'', Str ''b''), (''v'', Num 1)], Obj [(''name'', Str ''a'')],
              Obj [(''v'', Num 2)], Obj [(''name'', Str []), (''v'', Num 3)],
              Obj [(''name'', Str ''b''), (''v'', Num 2)]]"
  let ?out = "[Obj [(''v'', Num 2)], Obj [(''name'', Str []), (''v'', Num 3)],
                  Obj [(''name'', Str ''a'')], Obj [(''name'', Str ''b''), (''v'', Num 1)],
                  Obj [(''name'', Str ''b''), (''v'', Num 2)]]"
  have n: "\<forall>e \<in> set ?es. named e"
    by (simp add: named_def)
  have k: "name_key (Obj [(''name'', Str ''b''), (''v'', Num 1)]) = ''b''"
      "name_key (Obj [(''v'', Num 2)]) = []"
      "name_key (Obj [(''name'', Str ''a'')]) = ''a''"
      "name_key (Obj [(''name'', Str []), (''v'', Num 3)]) = []"
      "name_key (Obj [(''name'', Str ''b''), (''v'', Num 2)]) = ''b''"
    by (simp_all add: name_key_def)
  have cc: "codeunit_compare ''b'' (Str ''b'') = 0" "codeunit_compare ''a'' (Str ''b'') = - 1"
      "codeunit_compare [] (Str ''b'') = - 1"
    by (simp_all add: codeunit_compare_def less_char_def)
  from sortByName_sorted_stable[OF codeunit_compare_consistent n, of "[]"] obtain out where
    out: "sortByName codeunit_compare (Arr ?es []) = Inr (Arr out [])"
      "\<forall>e \<in> set ?es. nameOrEmpty e = Inr (Str (name_key e))"
      "\<forall>i. Suc i < length out \<longrightarrow>
          codeunit_compare (name_key (out ! i)) (Str (name_key (out ! Suc i))) \<le> 0"
      "empty_first codeunit_compare \<longrightarrow>
         (\<forall>i j. i < length out \<and> j < length out \<and> name_key (out ! i) = []
             \<and> name_key (out ! j) \<noteq> [] \<longrightarrow> i < j)"
      "\<forall>k. filter (\<lambda>e. codeunit_compare (name_key e) (Str k) = 0) out
          = filter (\<lambda>e. codeunit_compare (name_key e) (Str k) = 0) ?es"
    by blast
  have e: "sortByName codeunit_compare (Arr ?es []) = Inr (Arr ?out [])"
    by (simp add: sortByName_def array_sort_def stable_sort_def compareNames_def nameOrEmpty_def
        and_then_simps codeunit_compare_def less_char_def)
  have o: "out = ?out" using out(1) e by simp
  have a: "codeunit_compare (name_key (?out ! 1)) (Str (name_key (?out ! Suc 1))) \<le> 0"
    using out(3)[rule_format, of 1] unfolding o by simp
  have m: "nameOrEmpty (Obj [(''v'', Num 2)]) = Inr (Str (name_key (Obj [(''v'', Num 2)])))"
    using out(2) by simp
  have f: "filter (\<lambda>e. codeunit_compare (name_key e) (Str ''b'') = 0) ?out
      = filter (\<lambda>e. codeunit_compare (name_key e) (Str ''b'') = 0) ?es"
    using out(5)[rule_format, of "''b''"] unfolding o .
  have f2: "filter (\<lambda>e. codeunit_compare (name_key e) (Str ''b'') = 0) ?es
      = [Obj [(''name'', Str ''b''), (''v'', Num 1)], Obj [(''name'', Str ''b''), (''v'', Num 2)]]"
    by (simp add: k cc)
  have p: "(1::nat) < 2"
    using out(4)[rule_format, OF codeunit_compare_empty_first, of 1 2] unfolding o
    by (simp add: k)
  show ?thesis
    using codeunit_compare_consistent codeunit_compare_empty_first n e a m f f2 p
    by (simp add: k)
qed

subsection \<open>sortFlowArrays\<close>

lemma lookup_assign: "lookup (assign ps k v) k' = (if k' = k then v else lookup ps k')"
  by (induction ps) auto

lemma isArray_elements: "isArray v \<Longrightarrow> \<exists>es aps. v = Arr es aps"
  by (cases v) auto

text \<open>
  C4, a failing input. \<open>NESTED_SORT_CONFIG\<close> names the rules of a decision and the
  fields and actions of a screen as the child properties that should be sorted, and
  \<open>sortFlowArrays\<close> never reads it. The returned document has the flat field
  \<open>decisions\<close> sorted (\<open>D\<close> before \<open>Z\<close>), while the rules \<open>b, a\<close> of decision \<open>D\<close> and
  the fields \<open>y, x\<close> and actions \<open>q, p\<close> of screen \<open>S\<close> are as in the input, although
  \<open>b\<close> compares greater than \<open>a\<close>, \<open>y\<close> than \<open>x\<close> and \<open>q\<close> than \<open>p\<close>.
\<close>

theorem sortFlowArrays_nested_unsorted:
  "map_of NESTED_SORT_CONFIG ''decisions'' = Some [''rules'']
   \<and> map_of NESTED_SORT_CONFIG ''screens'' = Some [''fields'', ''actions'']
   \<and> sortFlowArrays codeunit_compare
     (Obj [(''decisions'',
           Arr [Obj [(''name'', Str ''Z'')],
                Obj [(''name'', Str ''D''),
                     (''rules'', Arr [Obj [(''name'', Str ''b'')], Obj [(''name'', Str ''a'')]] [])]]
               []),
          (''screens'',
           Arr [Obj [(''name'', Str ''S''),
                     (''fields'', Arr [Obj [(''name'', Str ''y'')], Obj [(''name'', Str ''x'')]] []),
                     (''actions'', Arr [Obj [(''name'', Str ''q'')], Obj [(''name'', Str ''p'')]] [])]]
               [])])
   = Inr (Obj [(''decisions'',
           Arr [Obj [(''name'', Str ''D''),
                     (''rules'', Arr [Obj [(''name'', Str ''b'')], Obj [(''name'', Str ''a'')]] [])],
                Obj [(''name'', Str ''Z'')]]
               []),
          (''screens'',
           Arr [Obj [(''name'', Str ''S''),
                     (''fields'', Arr [Obj [(''name'', Str ''y'')], Obj [(''name'', Str ''x'')]] []),
                     (''actions'', Arr [Obj [(''name'', Str ''q'')], Obj [(''name'', Str ''p'')]] [])]]
               [])])
   \<and> compareNames codeunit_compare (Obj [(''name'', Str ''b'')]) (Obj [(''name'', Str ''a'')]) = Inr 1
   \<and> compareNames codeunit_compare (Obj [(''name'', Str ''y'')]) (Obj [(''name'', Str ''x'')]) = Inr 1
   \<and> compareNames codeunit_compare (Obj [(''name'', Str ''q'')]) (Obj [(''name'', Str ''p'')]) = Inr 1"
  by (simp add: NESTED_SORT_CONFIG_def sortFlowArrays_def sortProperty_def sortByName_def
      array_sort_def stable_sort_def compareNames_def nameOrEmpty_def and_then_simps
      codeunit_compare_def less_char_def FLOW_ARRAY_PROPERTIES_def FLOW_ARRAY_NODES_def)

subsection \<open>Normalization: fields, the lens of processPropertyArrays, idempotence\<close>

lemma assign_lookup_same: "lookup ps k \<noteq> Undefined \<Longrightarrow> assign ps k (lookup ps k) = ps"
  by (induction ps) auto

lemma assign_assign: "assign (assign ps k v) k w = assign ps k w"
  by (induction ps) auto

lemma put_eq: "put obj k v = (if is_object obj then Inr (putv obj k v) else Inl TypeError)"
  by (cases obj) auto

lemma get_eq:
  "get obj k = (if obj = Undefined \<or> obj = Null then Inl TypeError else Inr (field obj k))"
  by (cases obj) auto

lemma field_putv:
  "field (putv obj k v) k' = (if is_object obj \<and> k' = k then v else field obj k')"
  by (cases obj) (auto simp: lookup_assign)

lemma putv_field_same: "field obj k \<noteq> Undefined \<Longrightarrow> putv obj k (field obj k) = obj"
  by (cases obj) (auto simp: assign_lookup_same)

lemma putv_putv: "putv (putv obj k v) k w = putv obj k w"
  by (cases obj) (auto simp: assign_assign)

lemma putv_shape [simp]:
  "is_object (putv obj k v) = is_object obj"
  "isArray (putv obj k v) = isArray obj"
  "elements (putv obj k v) = elements obj"
  "truthy (putv obj k v) = truthy obj"
  "(putv obj k v = Null) = (obj = Null)"
  "(putv obj k v = Undefined) = (obj = Undefined)"
  by (cases obj; simp)+

lemma is_object_field: "\<not> is_object obj \<Longrightarrow> field obj k = Undefined"
  by (cases obj) auto

lemma isArray_truthy: "isArray v \<Longrightarrow> truthy v \<and> is_object v \<and> v \<noteq> Undefined"
  by (cases v) auto

lemma is_object_truthy: "is_object v \<Longrightarrow> truthy v \<and> v \<noteq> Undefined \<and> v \<noteq> Null"
  by (cases v) auto

lemma arrayify_simps [simp]:
  "isArray (arrayify v)"
  "isArray v \<Longrightarrow> arrayify v = v"
  by (auto simp: arrayify_def)

lemma ensureArray_eq:
  "ensureArray obj p =
     (if is_object obj then Inr (putv obj p (arrayify (field obj p))) else Inl TypeError)"
proof (cases "is_object obj")
  case True
  then have g: "get obj p = Inr (field obj p)" by (cases obj) auto
  show ?thesis
  proof (cases "isArray (field obj p)")
    case a: True
    then have "putv obj p (field obj p) = obj"
      using putv_field_same isArray_truthy by blast
    then show ?thesis using True a isArray_truthy[OF a]
      by (simp add: ensureArray_def g and_then_simps)
  next
    case False
    then show ?thesis using True
      by (simp add: ensureArray_def g and_then_simps put_eq arrayify_def)
  qed
next
  case False
  then show ?thesis
    by (cases obj) (auto simp: ensureArray_def and_then_simps)
qed

lemma and_then_assoc:
  "and_then (and_then m f) g = and_then m (\<lambda>x. and_then (f x) g)"
  by (cases m) (simp_all add: and_then_simps)

lemma processPropertyArrays_lens:
  "processPropertyArrays again obj prop config =
     (if is_object obj
      then and_then (value_step again prop config (field obj prop)) (\<lambda>v'. Inr (putv obj prop v'))
      else Inl TypeError)"
proof (cases config)
  case (NestedArrayConfig cas nc rc)
  show ?thesis
  proof (cases "is_object obj")
    case False
    then show ?thesis unfolding NestedArrayConfig
      by (cases obj) (auto simp: and_then_simps ensureArray_eq)
  next
    case True
    then have g: "get obj prop = Inr (field obj prop)" by (cases obj) auto
    obtain items aps where a: "arrayify (field obj prop) = Arr items aps"
      using arrayify_simps(1)[of "field obj prop"] by (cases "arrayify (field obj prop)") auto
    have item: "(\<lambda>item.
                      and_then (ensureArrays item cas) (\<lambda>i1.
                      and_then (case nc of None \<Rightarrow> Inr i1
                                | Some ncs \<Rightarrow> processEntries again i1 ncs) (\<lambda>i2.
                      case rc of
                        None \<Rightarrow> Inr i2
                      | Some r \<Rightarrow>
                          if r = [] then Inr i2
                          else
                            and_then (get i2 r) (\<lambda>rv.
                              if truthy rv \<and> length_positive rv then
                                and_then (again (Obj [(prop, Arr [Obj [(r, rv)]] [])])) (\<lambda>t.
                                put i2 r (read_back t prop r rv))
                              else Inr i2)))) = item_step again prop config"
      unfolding item_step_def entries_step_def recursive_step_def NestedArrayConfig by simp
    have p: "put obj k = (\<lambda>v'. Inr (putv obj k v'))" for k
      using True by (simp add: put_eq fun_eq_iff)
    show ?thesis
    proof (cases "prop = ''start'' \<and> truthy (field obj prop) \<and> is_object (field obj prop)")
      case s: True
      then have ps: "prop = ''start''"
        and t: "truthy (field obj ''start'')" "is_object (field obj ''start'')" by auto
      have "processPropertyArrays again obj prop (NestedArrayConfig cas nc rc) =
          and_then (ensureArrays (field obj prop) cas) (\<lambda>s1.
            and_then (entries_step again nc s1) (put obj prop))"
        unfolding processPropertyArrays.simps g and_then_simps
        using t by (simp add: entries_step_def ps)
      also have "\<dots> = and_then (value_step again prop (NestedArrayConfig cas nc rc) (field obj prop))
          (\<lambda>v'. Inr (putv obj prop v'))"
        using t by (simp add: value_step_def and_then_assoc p ps)
      finally show ?thesis using True NestedArrayConfig by simp
    next
      case ns: False
      have e1: "ensureArray obj prop = Inr (putv obj prop (Arr items aps))"
        using True a by (simp add: ensureArray_eq)
      have g1: "get (putv obj prop (Arr items aps)) prop = Inr (Arr items aps)"
        using True is_object_truthy[OF True] by (simp add: get_eq field_putv)
      have vs: "value_step again prop config (field obj prop) =
          (if items = [] then Inr (Arr items aps)
           else and_then (for_each (item_step again prop config) items)
                  (\<lambda>items'. Inr (Arr items' aps)))"
        unfolding value_step_def by (simp only: if_not_P[OF ns] a elements.simps jv.case)
      have "processPropertyArrays again obj prop (NestedArrayConfig cas nc rc) =
          (if items = [] then Inr (putv obj prop (Arr items aps))
           else and_then (for_each (item_step again prop config) items)
                  (\<lambda>items'. put (putv obj prop (Arr items aps)) prop (Arr items' aps)))"
        by (simp only: processPropertyArrays.simps g and_then_simps if_not_P[OF ns] e1 g1
            jv.case item)
      also have "\<dots> = and_then (value_step again prop config (field obj prop))
          (\<lambda>v'. Inr (putv obj prop v'))"
        using True by (simp add: vs and_then_assoc and_then_simps put_eq putv_putv)
      finally show ?thesis using True NestedArrayConfig by simp
    qed
  qed
qed

lemma processEntries_Cons:
  "processEntries again obj (e # rest) =
     (if obj = Undefined \<or> obj = Null then Inl TypeError
      else if truthy (field obj (fst e))
      then and_then (value_step again (fst e) (snd e) (field obj (fst e)))
             (\<lambda>v'. processEntries again (putv obj (fst e) v') rest)
      else processEntries again obj rest)"
proof -
  have "truthy (field obj (fst e)) \<Longrightarrow> is_object obj"
    by (cases obj) auto
  then show ?thesis
    by (simp add: get_eq and_then_simps processPropertyArrays_lens and_then_assoc)
qed

lemma wf_table: "wf_entries NESTED_ARRAY_CONFIG"
  by (simp add: NESTED_ARRAY_CONFIG_def leaf_def)

lemma processEntries_skip:
  "\<forall>e \<in> set es. \<not> truthy (field obj (fst e)) \<Longrightarrow> obj \<noteq> Undefined \<Longrightarrow> obj \<noteq> Null \<Longrightarrow>
   processEntries again obj es = Inr obj"
  by (induction es) (simp_all add: processEntries_Cons del: processEntries.simps(2))

lemma lookup_single_other: "k \<noteq> p \<Longrightarrow> lookup [(p, x)] k = Undefined"
  by simp

lemma noop_processNestedArrays: "noop_on_temporaries (processNestedArrays (Suc n))"
proof -
  have "processEntries again (Obj [(p, x)]) NESTED_ARRAY_CONFIG = Inr (Obj [(p, x)])"
    if "p \<notin> set (map fst NESTED_ARRAY_CONFIG)" for p x again
  proof (rule processEntries_skip)
    show "\<forall>e \<in> set NESTED_ARRAY_CONFIG. \<not> truthy (field (Obj [(p, x)]) (fst e))"
      using that by auto
  qed simp_all
  then show ?thesis by (simp add: noop_on_temporaries_def)
qed

lemma noop_Inr: "noop_on_temporaries Inr"
  by (simp add: noop_on_temporaries_def)

lemma recursive_step_Inr:
  "recursive_step Inr p rc i2 =
     (case rc of
        None \<Rightarrow> Inr i2
      | Some r \<Rightarrow> if r \<noteq> [] \<and> (i2 = Undefined \<or> i2 = Null) then Inl TypeError else Inr i2)"
proof (cases rc)
  case None
  then show ?thesis by (simp add: recursive_step_def)
next
  case (Some r)
  have "put i2 r (field i2 r) = Inr i2" if "truthy (field i2 r)"
  proof -
    have "is_object i2" using that by (cases i2) auto
    moreover have "field i2 r \<noteq> Undefined" using that by auto
    ultimately show ?thesis by (simp add: put_eq putv_field_same)
  qed
  then show ?thesis
    using Some by (simp add: recursive_step_def get_eq and_then_simps)
qed

lemma recursive_step_noop:
  assumes "noop_on_temporaries again" and "rc \<noteq> None \<longrightarrow> p \<notin> set (map fst NESTED_ARRAY_CONFIG)"
  shows "recursive_step again p rc i2 = recursive_step Inr p rc i2"
proof (cases rc)
  case None
  then show ?thesis by (simp add: recursive_step_def)
next
  case (Some r)
  then have a: "again (Obj [(p, x)]) = Inr (Obj [(p, x)])" for x
    using assms unfolding noop_on_temporaries_def by blast
  show ?thesis by (simp add: recursive_step_def a Some cong: if_cong)
qed

lemma processEntries_indep:
  assumes "\<forall>e \<in> set es. \<forall>p v. wf_config p (snd e) \<longrightarrow>
             value_step again p (snd e) v = value_step Inr p (snd e) v"
    and "wf_entries es"
  shows "processEntries again obj es = processEntries Inr obj es"
  using assms
proof (induction es arbitrary: obj)
  case Nil
  then show ?case by simp
next
  case (Cons e es)
  then have v: "value_step again (fst e) (snd e) v = value_step Inr (fst e) (snd e) v" for v
    by simp
  have r: "processEntries again o' es = processEntries Inr o' es" for o'
    using Cons by simp
  show ?case by (simp only: processEntries_Cons v r)
qed

lemma value_step_indep:
  assumes n: "noop_on_temporaries again"
  shows "wf_config p config \<Longrightarrow> value_step again p config v = value_step Inr p config v"
proof (induction config arbitrary: p v)
  case (NestedArrayConfig cas nc rc)
  have es: "entries_step again nc obj = entries_step Inr nc obj" for obj
  proof (cases nc)
    case None
    then show ?thesis by (simp add: entries_step_def)
  next
    case (Some ncs)
    have a: "\<forall>e \<in> set ncs. \<forall>p v. wf_config p (snd e) \<longrightarrow>
             value_step again p (snd e) v = value_step Inr p (snd e) v"
    proof (intro ballI allI impI)
      fix e p v
      assume e: "e \<in> set ncs" and w: "wf_config p (snd e)"
      have s: "snd e \<in> Basic_BNFs.snds e" by (cases e) simp
      have o: "ncs \<in> set_option nc" using Some by simp
      from NestedArrayConfig.IH[OF o e s w]
      show "value_step again p (snd e) v = value_step Inr p (snd e) v" .
    qed
    have w: "wf_entries ncs" using NestedArrayConfig.prems Some by simp
    show ?thesis using processEntries_indep[OF a w] Some by (simp add: entries_step_def)
  qed
  have rs: "recursive_step again p rc i2 = recursive_step Inr p rc i2" for i2
    using recursive_step_noop[OF n] NestedArrayConfig.prems by simp
  have es': "entries_step again nc = entries_step Inr nc"
    using es by (simp add: fun_eq_iff)
  have rs': "recursive_step again p rc = recursive_step Inr p rc"
    using rs by (simp add: fun_eq_iff)
  have item: "item_step again p (NestedArrayConfig cas nc rc)
      = item_step Inr p (NestedArrayConfig cas nc rc)"
    unfolding item_step_def fun_eq_iff by (simp only: es' rs' NestedArrayConfig.sel simp_thms)
  show ?case unfolding value_step_def by (simp only: es' item NestedArrayConfig.sel)
qed

lemma processEntries_fuel_free:
  assumes "noop_on_temporaries again" and "wf_entries es"
  shows "processEntries again obj es = processEntries Inr obj es"
proof (rule processEntries_indep)
  show "\<forall>e \<in> set es. \<forall>p v. wf_config p (snd e) \<longrightarrow>
             value_step again p (snd e) v = value_step Inr p (snd e) v"
    using value_step_indep[OF assms(1)] by blast
qed (fact assms(2))

lemma same_shape_refl [simp]: "same_shape a a"
  by (simp add: same_shape_def)

lemma same_shape_trans: "same_shape a b \<Longrightarrow> same_shape b c \<Longrightarrow> same_shape a c"
  by (auto simp: same_shape_def)

lemma same_shape_putv [simp]: "same_shape a (putv a k v)"
  by (cases a) (simp_all add: same_shape_def)

lemma same_shape_not_nullish:
  "same_shape a b \<Longrightarrow> a \<noteq> Undefined \<Longrightarrow> a \<noteq> Null \<Longrightarrow> b \<noteq> Undefined \<and> b \<noteq> Null"
  by (cases "is_object a") (auto simp: same_shape_def)

lemma arrayify_idem [simp]: "arrayify (arrayify v) = arrayify v"
  by simp

lemma ensureArrays_effect:
  "ensureArrays obj ps = Inr obj' \<Longrightarrow>
     (ps \<noteq> [] \<longrightarrow> is_object obj) \<and> same_shape obj obj'
     \<and> (\<forall>k. field obj' k = (if k \<in> set ps then arrayify (field obj k) else field obj k))"
proof (induction ps arbitrary: obj)
  case Nil
  then show ?case by simp
next
  case (Cons p ps)
  then have o: "is_object obj"
    and r: "ensureArrays (putv obj p (arrayify (field obj p))) ps = Inr obj'"
    by (auto simp: ensureArray_eq and_then_simps split: if_splits)
  from Cons.IH[OF r] have
    s: "same_shape (putv obj p (arrayify (field obj p))) obj'"
    and f: "\<forall>k. field obj' k = (if k \<in> set ps
          then arrayify (field (putv obj p (arrayify (field obj p))) k)
          else field (putv obj p (arrayify (field obj p))) k)"
    by blast+
  have "same_shape obj obj'" using same_shape_trans[OF same_shape_putv s] .
  moreover have "field obj' k = (if k \<in> set (p # ps) then arrayify (field obj k) else field obj k)" for k
    using f[rule_format, of k] o by (simp add: field_putv)
  ultimately show ?case using o by blast
qed

lemma ensureArrays_fixed:
  "\<forall>k \<in> set ps. isArray (field obj k) \<Longrightarrow> ensureArrays obj ps = Inr obj"
proof (induction ps)
  case Nil
  then show ?case by simp
next
  case (Cons p ps)
  then have a: "isArray (field obj p)" by simp
  then have "is_object obj" by (cases obj) auto
  moreover have "putv obj p (field obj p) = obj"
    using a putv_field_same isArray_truthy by blast
  ultimately show ?case using Cons a by (simp add: ensureArray_eq and_then_simps)
qed

lemma for_each_settled:
  assumes "\<And>x y. f x = Inr y \<Longrightarrow> f y = Inr y"
  shows "for_each f xs = Inr ys \<Longrightarrow> for_each f ys = Inr ys"
proof (induction xs arbitrary: ys)
  case Nil
  then show ?case by simp
next
  case (Cons x xs)
  then obtain y ys' where a: "f x = Inr y" "for_each f xs = Inr ys'" "ys = y # ys'"
    by (auto simp: and_then_Inr_iff)
  show ?case using assms[OF a(1)] Cons.IH[OF a(2)] a(3) by (simp add: and_then_simps)
qed

lemma processEntries_nullish:
  "obj = Undefined \<or> obj = Null \<Longrightarrow> processEntries again obj (e # es) = Inl TypeError"
  by (auto simp: and_then_simps)

lemma processEntries_settled:
  assumes "\<forall>e \<in> set es. value_settles (fst e) (snd e)"
    and "distinct (map fst es)"
    and "processEntries Inr obj es = Inr obj'"
  shows "processEntries Inr obj' es = Inr obj' \<and> same_shape obj obj'
     \<and> (\<forall>k. isArray (field obj k) \<longrightarrow> isArray (field obj' k))
     \<and> (\<forall>k. k \<notin> set (map fst es) \<longrightarrow> field obj' k = field obj k)"
  using assms
proof (induction es arbitrary: obj)
  case Nil
  then show ?case by simp
next
  case (Cons e es)
  let ?p = "fst e"
  have good: "\<forall>e \<in> set es. value_settles (fst e) (snd e)"
    using Cons.prems(1) by simp
  have d: "distinct (map fst es)" and pn: "?p \<notin> set (map fst es)"
    using Cons.prems(2) by auto
  have nn: "obj \<noteq> Undefined" "obj \<noteq> Null"
    using Cons.prems(3) processEntries_nullish[of obj Inr e es] by auto
  show ?case
  proof (cases "truthy (field obj ?p)")
    case True
    then have o: "is_object obj" by (cases obj) auto
    have "processEntries Inr obj (e # es) =
        and_then (value_step Inr ?p (snd e) (field obj ?p))
          (\<lambda>v'. processEntries Inr (putv obj ?p v') es)"
      using True nn by (subst processEntries_Cons) simp
    with Cons.prems(3) obtain v' where
      v: "value_step Inr ?p (snd e) (field obj ?p) = Inr v'"
      and r: "processEntries Inr (putv obj ?p v') es = Inr obj'"
      by (auto simp only: and_then_Inr_iff)
    have "value_settles ?p (snd e)" using Cons.prems(1) by simp
    from this[unfolded value_settles_def, rule_format, OF True v] have
      gv: "value_step Inr ?p (snd e) v' = Inr v'" "truthy v'"
        "isArray (field obj ?p) \<longrightarrow> isArray v'"
      by blast+
    from Cons.IH[OF good d r] have
      ih: "processEntries Inr obj' es = Inr obj'" "same_shape (putv obj ?p v') obj'"
        "\<forall>k. isArray (field (putv obj ?p v') k) \<longrightarrow> isArray (field obj' k)"
        "\<forall>k. k \<notin> set (map fst es) \<longrightarrow> field obj' k = field (putv obj ?p v') k"
      by blast+
    have fp: "field obj' ?p = v'" using ih(4) pn o by (simp add: field_putv)
    have ss: "same_shape obj obj'" using same_shape_trans[OF same_shape_putv ih(2)] .
    have nn': "obj' \<noteq> Undefined" "obj' \<noteq> Null"
      using same_shape_not_nullish[OF ss nn] by auto
    have "field obj' ?p \<noteq> Undefined" using fp gv(2) by auto
    then have "putv obj' ?p v' = obj'"
      using putv_field_same[of obj' ?p] fp by simp
    then have again: "processEntries Inr obj' (e # es) = Inr obj'"
      using nn' fp gv(1,2) ih(1)
      by (subst processEntries_Cons) (simp add: and_then_simps)
    have arr: "isArray (field obj k) \<longrightarrow> isArray (field obj' k)" for k
      using ih(3)[rule_format, of k] gv(3) o by (cases "k = ?p") (auto simp: field_putv)
    have fr: "k \<notin> set (map fst (e # es)) \<longrightarrow> field obj' k = field obj k" for k
      using ih(4)[rule_format, of k] by (auto simp: field_putv)
    show ?thesis using again ss arr fr by blast
  next
    case False
    have "processEntries Inr obj (e # es) = processEntries Inr obj es"
      using False nn by (subst processEntries_Cons) simp
    with Cons.prems(3) have r: "processEntries Inr obj es = Inr obj'" by simp
    from Cons.IH[OF good d r] have
      ih: "processEntries Inr obj' es = Inr obj'" "same_shape obj obj'"
        "\<forall>k. isArray (field obj k) \<longrightarrow> isArray (field obj' k)"
        "\<forall>k. k \<notin> set (map fst es) \<longrightarrow> field obj' k = field obj k"
      by blast+
    have nn': "obj' \<noteq> Undefined" "obj' \<noteq> Null"
      using same_shape_not_nullish[OF ih(2) nn] by auto
    have "field obj' ?p = field obj ?p" using ih(4) pn by blast
    then have again: "processEntries Inr obj' (e # es) = Inr obj'"
      using nn' False ih(1)
      by (subst processEntries_Cons) simp
    have fr: "k \<notin> set (map fst (e # es)) \<longrightarrow> field obj' k = field obj k" for k
      using ih(4)[rule_format, of k] by auto
    show ?thesis using again ih(2,3) fr by blast
  qed
qed

lemma wf_entries_distinct: "wf_entries es \<Longrightarrow> distinct (map fst es)"
  by (induction es) auto

lemma wf_entries_config: "wf_entries es \<Longrightarrow> e \<in> set es \<Longrightarrow> wf_config (fst e) (snd e)"
  by (induction es) auto

lemma entries_settle_None: "entries_settle None"
  by (simp add: entries_settle_def entries_step_def)

lemma entries_settle_Some:
  assumes "\<forall>e \<in> set es. value_settles (fst e) (snd e)" and "wf_entries es"
  shows "entries_settle (Some es)"
  unfolding entries_settle_def entries_step_def option.case
  using processEntries_settled[OF assms(1) wf_entries_distinct[OF assms(2)]] by blast

lemma body_settled:
  assumes e: "entries_settle nc"
    and b: "and_then (ensureArrays x cas) (entries_step Inr nc) = Inr y"
  shows "and_then (ensureArrays y cas) (entries_step Inr nc) = Inr y \<and> same_shape x y
     \<and> (cas \<noteq> [] \<longrightarrow> is_object x)"
proof -
  from b obtain x1 where x1: "ensureArrays x cas = Inr x1" "entries_step Inr nc x1 = Inr y"
    by (auto simp only: and_then_Inr_iff)
  from ensureArrays_effect[OF x1(1)] have
    ef: "cas \<noteq> [] \<longrightarrow> is_object x" "same_shape x x1"
      "\<forall>k. field x1 k = (if k \<in> set cas then arrayify (field x k) else field x k)"
    by blast+
  from e[unfolded entries_settle_def, rule_format, OF x1(2)] have
    st: "entries_step Inr nc y = Inr y" "same_shape x1 y"
      "\<forall>k. isArray (field x1 k) \<longrightarrow> isArray (field y k)"
    by blast+
  have "\<forall>k \<in> set cas. isArray (field y k)"
  proof
    fix k assume "k \<in> set cas"
    then have "isArray (field x1 k)" using ef(3) by simp
    then show "isArray (field y k)" using st(3) by blast
  qed
  then have "ensureArrays y cas = Inr y" by (rule ensureArrays_fixed)
  then have "and_then (ensureArrays y cas) (entries_step Inr nc) = Inr y"
    using st(1) by (simp add: and_then_simps)
  then show ?thesis using same_shape_trans[OF ef(2) st(2)] ef(1) by blast
qed

lemma item_step_body:
  "item_step again p (NestedArrayConfig cas nc rc) item =
     and_then (and_then (ensureArrays item cas) (entries_step again nc)) (recursive_step again p rc)"
  by (simp add: item_step_def and_then_assoc)

lemma recursive_step_Inr_result:
  "recursive_step Inr p rc i2 = Inr i3 \<Longrightarrow> i3 = i2"
  by (auto simp: recursive_step_Inr split: option.splits if_splits)

lemma item_settled:
  assumes e: "entries_settle nc"
    and i: "item_step Inr p (NestedArrayConfig cas nc rc) item = Inr item'"
  shows "item_step Inr p (NestedArrayConfig cas nc rc) item' = Inr item'
     \<and> (cas \<noteq> [] \<longrightarrow> is_object item)"
proof -
  from i obtain i2 where
    b: "and_then (ensureArrays item cas) (entries_step Inr nc) = Inr i2"
    and r: "recursive_step Inr p rc i2 = Inr item'"
    unfolding item_step_body by (auto simp only: and_then_Inr_iff)
  have eq: "item' = i2" using recursive_step_Inr_result[OF r] .
  from body_settled[OF e b] have
    "and_then (ensureArrays i2 cas) (entries_step Inr nc) = Inr i2" "cas \<noteq> [] \<longrightarrow> is_object item"
    by blast+
  then show ?thesis
    unfolding item_step_body eq using r[unfolded eq] by (simp add: and_then_simps)
qed

lemma value_settles_wf: "wf_config p config \<Longrightarrow> value_settles p config"
proof (induction config arbitrary: p)
  case (NestedArrayConfig cas nc rc)
  have e: "entries_settle nc"
  proof (cases nc)
    case None
    then show ?thesis by (simp add: entries_settle_None)
  next
    case (Some ncs)
    have w: "wf_entries ncs" using NestedArrayConfig.prems Some by simp
    have "\<forall>e \<in> set ncs. value_settles (fst e) (snd e)"
    proof
      fix e assume e: "e \<in> set ncs"
      have s: "snd e \<in> Basic_BNFs.snds e" by (cases e) simp
      have o: "ncs \<in> set_option nc" using Some by simp
      from NestedArrayConfig.IH[OF o e s wf_entries_config[OF w e]]
      show "value_settles (fst e) (snd e)" .
    qed
    then show ?thesis using entries_settle_Some w Some by blast
  qed
  have st: "p = ''start'' \<longrightarrow> cas \<noteq> []" using NestedArrayConfig.prems by simp
  let ?c = "NestedArrayConfig cas nc rc"
  show ?case
    unfolding value_settles_def
  proof (intro allI impI)
    fix v v'
    assume t: "truthy v" and vs: "value_step Inr p ?c v = Inr v'"
    show "value_step Inr p ?c v' = Inr v' \<and> truthy v' \<and> (isArray v \<longrightarrow> isArray v')"
    proof (cases "p = ''start'' \<and> is_object v")
      case True
      then have b: "and_then (ensureArrays v cas) (entries_step Inr nc) = Inr v'"
        using vs t by (simp add: value_step_def)
      from body_settled[OF e b] have
        b': "and_then (ensureArrays v' cas) (entries_step Inr nc) = Inr v'" and ss: "same_shape v v'"
        by blast+
      have o: "is_object v'" using ss True by (simp add: same_shape_def)
      then have "value_step Inr p ?c v' = Inr v'"
        using True b' is_object_truthy[OF o] by (simp add: value_step_def)
      then show ?thesis using is_object_truthy[OF o] ss by (simp add: same_shape_def)
    next
      case False
      then have ns: "\<not> (p = ''start'' \<and> truthy v \<and> is_object v)" by blast
      obtain items aps where a: "arrayify v = Arr items aps"
        using arrayify_simps(1)[of v] by (cases "arrayify v") auto
      have vs': "(if items = [] then Inr (Arr items aps)
           else and_then (for_each (item_step Inr p ?c) items)
                  (\<lambda>items'. Inr (Arr items' aps))) = Inr v'"
        using vs unfolding value_step_def
        by (simp only: if_not_P[OF ns] a elements.simps jv.case)
      have pns: "p \<noteq> ''start''"
      proof
        assume ps: "p = ''start''"
        then have nv: "\<not> is_object v" using False by blast
        then have "\<not> isArray v" by (cases v) auto
        then have i: "items = [v]" using a t by (simp add: arrayify_def)
        then obtain w where "item_step Inr p ?c v = Inr w"
          using vs' by (auto simp: and_then_Inr_iff)
        from item_settled[OF e this] st ps nv show False by blast
      qed
      show ?thesis
      proof (cases "items = []")
        case True
        then have v': "v' = Arr [] aps" using vs' by simp
        have "value_step Inr p ?c v' = Inr v'"
          unfolding v' value_step_def using pns by simp
        then show ?thesis by (simp add: v')
      next
        case ne: False
        then obtain items' where
          fe: "for_each (item_step Inr p ?c) items = Inr items'" and v': "v' = Arr items' aps"
          using vs' by (auto simp: and_then_Inr_iff)
        have fe': "for_each (item_step Inr p ?c) items' = Inr items'"
          using for_each_settled[of "item_step Inr p ?c", OF _ fe] item_settled[OF e] by blast
        have "items' \<noteq> []" using for_each_Inr[OF fe] ne by auto
        then have "value_step Inr p ?c v' = Inr v'"
          unfolding v' value_step_def using pns fe' by (simp add: and_then_simps)
        then show ?thesis by (simp add: v')
      qed
    qed
  qed
qed

lemma ensureArrays_error: "ensureArrays obj ps = Inl e \<Longrightarrow> e = TypeError"
proof (induction ps arbitrary: obj)
  case Nil
  then show ?case by simp
next
  case (Cons p ps)
  then show ?case
    by (cases "is_object obj") (auto simp: ensureArray_eq and_then_simps)
qed

lemma and_then_Inl_iff:
  "(and_then m f = Inl e) = (m = Inl e \<or> (\<exists>x. m = Inr x \<and> f x = Inl e))"
  by (cases m) (simp_all add: and_then_simps)

lemma for_each_error:
  "for_each f xs = Inl e \<Longrightarrow> \<exists>x. f x = Inl e"
proof (induction xs)
  case Nil
  then show ?case by simp
next
  case (Cons x xs)
  then show ?case by (auto simp: and_then_Inl_iff)
qed

lemma processEntries_error:
  assumes "\<forall>c \<in> set es. \<forall>v e. value_step Inr (fst c) (snd c) v = Inl e \<longrightarrow> e = TypeError"
  shows "processEntries Inr obj es = Inl e \<Longrightarrow> e = TypeError"
  using assms
proof (induction es arbitrary: obj)
  case Nil
  then show ?case by simp
next
  case (Cons c es)
  have ih: "processEntries Inr o' es = Inl e \<Longrightarrow> e = TypeError" for o'
    using Cons.IH Cons.prems(2) by simp
  have v: "value_step Inr (fst c) (snd c) v = Inl e \<Longrightarrow> e = TypeError" for v
    using Cons.prems(2) by simp
  from Cons.prems(1) show ?case
    unfolding processEntries_Cons
    by (auto simp: and_then_Inl_iff split: if_splits dest: ih v)
qed

lemma recursive_step_error: "recursive_step Inr p rc i2 = Inl e \<Longrightarrow> e = TypeError"
  by (auto simp: recursive_step_Inr split: option.splits if_splits)

lemma value_step_error: "value_step Inr p config v = Inl e \<Longrightarrow> e = TypeError"
proof (induction config arbitrary: p v e)
  case (NestedArrayConfig cas nc rc)
  have es: "entries_step Inr nc obj = Inl e \<Longrightarrow> e = TypeError" for obj e
  proof (cases nc)
    case None
    then show "entries_step Inr nc obj = Inl e \<Longrightarrow> e = TypeError"
      by (simp add: entries_step_def)
  next
    case (Some ncs)
    have "\<forall>c \<in> set ncs. \<forall>v e. value_step Inr (fst c) (snd c) v = Inl e \<longrightarrow> e = TypeError"
    proof (intro ballI allI impI)
      fix c v e assume c: "c \<in> set ncs" and ve: "value_step Inr (fst c) (snd c) v = Inl e"
      have s: "snd c \<in> Basic_BNFs.snds c" by (cases c) simp
      have o: "ncs \<in> set_option nc" using Some by simp
      from NestedArrayConfig.IH[OF o c s ve] show "e = TypeError" .
    qed
    from processEntries_error[OF this]
    show "entries_step Inr nc obj = Inl e \<Longrightarrow> e = TypeError"
      using Some by (simp add: entries_step_def)
  qed
  have body: "and_then (ensureArrays x cas) (entries_step Inr nc) = Inl e \<Longrightarrow> e = TypeError" for x e
    by (auto simp: and_then_Inl_iff dest: ensureArrays_error es)
  have item: "item_step Inr p (NestedArrayConfig cas nc rc) x = Inl e \<Longrightarrow> e = TypeError" for x e
    unfolding item_step_body
    by (auto simp: and_then_Inl_iff dest: ensureArrays_error es recursive_step_error)
  from NestedArrayConfig.prems show ?case
    unfolding value_step_def
    by (auto simp: and_then_Inl_iff split: if_splits
        dest: ensureArrays_error es item for_each_error)
qed

lemma processEntries_no_fuel_error: "processEntries Inr obj es \<noteq> Inl OutOfFuel"
  using processEntries_error[of es obj OutOfFuel] value_step_error by blast

lemma ensureArrayProperties_fuel_free:
  "ensureArrayProperties (Suc (Suc n)) flow =
     and_then (ensureArrays flow FLOW_ARRAY_PROPERTIES) (entries_step Inr (Some NESTED_ARRAY_CONFIG))"
proof (cases "ensureArrays flow FLOW_ARRAY_PROPERTIES")
  case (Inl e)
  then show ?thesis by (simp add: ensureArrayProperties_def and_then_simps)
next
  case (Inr f)
  have "FLOW_ARRAY_PROPERTIES \<noteq> []" by (simp add: FLOW_ARRAY_PROPERTIES_def FLOW_ARRAY_NODES_def)
  with ensureArrays_effect[OF Inr] have "is_object f" by (simp add: same_shape_def)
  then have "processNestedArrays (Suc (Suc n)) f
      = processEntries (processNestedArrays (Suc n)) f NESTED_ARRAY_CONFIG"
    using is_object_truthy by simp
  also have "\<dots> = processEntries Inr f NESTED_ARRAY_CONFIG"
    using processEntries_fuel_free[OF noop_processNestedArrays wf_table] .
  finally show ?thesis by (simp add: ensureArrayProperties_def Inr and_then_simps entries_step_def)
qed

lemma ensureArrayProperties_enough_fuel:
  "ensureArrayProperties (Suc (Suc n)) flow \<noteq> Inl OutOfFuel"
  unfolding ensureArrayProperties_fuel_free
  using ensureArrays_error[of flow FLOW_ARRAY_PROPERTIES OutOfFuel] processEntries_no_fuel_error
  by (auto simp: and_then_Inl_iff entries_step_def)

lemma table_settles: "entries_settle (Some NESTED_ARRAY_CONFIG)"
proof (rule entries_settle_Some)
  show "\<forall>e \<in> set NESTED_ARRAY_CONFIG. value_settles (fst e) (snd e)"
    using value_settles_wf wf_entries_config[OF wf_table] by blast
qed (rule wf_table)

text \<open>
  C3. With fuel for two nested activations or more, normalization never runs out of
  fuel and its result does not depend on the fuel. Normalizing twice is normalizing
  once: the second run returns the document that the first run returned, unchanged,
  and so does every run on a document that a run has returned.
\<close>

theorem ensureArrayProperties_idempotent:
  "and_then (ensureArrayProperties (Suc (Suc n)) flow) (ensureArrayProperties (Suc (Suc n)))
     = ensureArrayProperties (Suc (Suc n)) flow
   \<and> (ensureArrayProperties (Suc (Suc n)) flow = Inr flow' \<longrightarrow>
        ensureArrayProperties (Suc (Suc n)) flow' = Inr flow')
   \<and> ensureArrayProperties (Suc (Suc n)) flow \<noteq> Inl OutOfFuel
   \<and> ensureArrayProperties (Suc (Suc n)) flow = ensureArrayProperties 2 flow"
proof -
  let ?N = "ensureArrayProperties (Suc (Suc n))"
  have fixed: "?N y = Inr y" if "?N x = Inr y" for x y
    using body_settled[OF table_settles that[unfolded ensureArrayProperties_fuel_free]]
    unfolding ensureArrayProperties_fuel_free by blast
  have twice: "and_then (?N flow) ?N = ?N flow"
  proof (cases "?N flow")
    case (Inl e)
    then show ?thesis by (simp add: and_then_simps)
  next
    case (Inr y)
    then show ?thesis using fixed[OF Inr] by (simp add: and_then_simps)
  qed
  have nofuel: "?N flow \<noteq> Inl OutOfFuel"
    by (rule ensureArrayProperties_enough_fuel)
  have two: "?N flow = ensureArrayProperties 2 flow"
    using ensureArrayProperties_fuel_free[of 0 flow] ensureArrayProperties_fuel_free[of n flow]
    by (simp add: numeral_2_eq_2)
  show ?thesis using twice fixed nofuel two by blast
qed

theorem ensureArrayProperties_idempotent_witness:
  "ensureArrayProperties (Suc (Suc 0))
     (Obj [(''decisions'', Obj [(''name'', Str ''D1''), (''rules'', Obj [(''name'', Str ''R1'')])])])
   = Inr (Obj [(''decisions'',
            Arr [Obj [(''name'', Str ''D1''),
                      (''rules'', Arr [Obj [(''name'', Str ''R1''), (''conditions'', Arr [] [])]] [])]]
             []),
           (''actionCalls'', Arr [] []), (''apexPluginCalls'', Arr [] []),
           (''assignments'', Arr [] []), (''collectionProcessors'', Arr [] []),
           (''customErrors'', Arr [] []), (''loops'', Arr [] []),
           (''recordCreates'', Arr [] []), (''recordDeletes'', Arr [] []),
           (''recordLookups'', Arr [] []), (''recordRollbacks'', Arr [] []),
           (''recordUpdates'', Arr [] []), (''screens'', Arr [] []),
           (''subflows'', Arr [] []), (''transforms'', Arr [] []),
           (''waits'', Arr [] []), (''orchestratedStages'', Arr [] []),
           (''choices'', Arr [] []), (''constants'', Arr [] []),
           (''dynamicChoiceSets'', Arr [] []), (''environments'', Arr [] []),
           (''formulas'', Arr [] []), (''processMetadataValues'', Arr [] []),
           (''stages'', Arr [] []), (''steps'', Arr [] []), (''textTemplates'', Arr [] []),
           (''variables'', Arr [] [])])
   \<and> ensureArrayProperties (Suc (Suc 0))
     (Obj [(''decisions'',
            Arr [Obj [(''name'', Str ''D1''),
                      (''rules'', Arr [Obj [(''name'', Str ''R1''), (''conditions'', Arr [] [])]] [])]]
             []),
           (''actionCalls'', Arr [] []), (''apexPluginCalls'', Arr [] []),
           (''assignments'', Arr [] []), (''collectionProcessors'', Arr [] []),
           (''customErrors'', Arr [] []), (''loops'', Arr [] []),
           (''recordCreates'', Arr [] []), (''recordDeletes'', Arr [] []),
           (''recordLookups'', Arr [] []), (''recordRollbacks'', Arr [] []),
           (''recordUpdates'', Arr [] []), (''screens'', Arr [] []),
           (''subflows'', Arr [] []), (''transforms'', Arr [] []),
           (''waits'', Arr [] []), (''orchestratedStages'', Arr [] []),
           (''choices'', Arr [] []), (''constants'', Arr [] []),
           (''dynamicChoiceSets'', Arr [] []), (''environments'', Arr [] []),
           (''formulas'', Arr [] []), (''processMetadataValues'', Arr [] []),
           (''stages'', Arr [] []), (''steps'', Arr [] []), (''textTemplates'', Arr [] []),
           (''variables'', Arr [] [])])
   = Inr (Obj [(''decisions'',
            Arr [Obj [(''name'', Str ''D1''),
                      (''rules'', Arr [Obj [(''name'', Str ''R1''), (''conditions'', Arr [] [])]] [])]]
             []),
           (''actionCalls'', Arr [] []), (''apexPluginCalls'', Arr [] []),
           (''assignments'', Arr [] []), (''collectionProcessors'', Arr [] []),
           (''customErrors'', Arr [] []), (''loops'', Arr [] []),
           (''recordCreates'', Arr [] []), (''recordDeletes'', Arr [] []),
           (''recordLookups'', Arr [] []), (''recordRollbacks'', Arr [] []),
           (''recordUpdates'', Arr [] []), (''screens'', Arr [] []),
           (''subflows'', Arr [] []), (''transforms'', Arr [] []),
           (''waits'', Arr [] []), (''orchestratedStages'', Arr [] []),
           (''choices'', Arr [] []), (''constants'', Arr [] []),
           (''dynamicChoiceSets'', Arr [] []), (''environments'', Arr [] []),
           (''formulas'', Arr [] []), (''processMetadataValues'', Arr [] []),
           (''stages'', Arr [] []), (''steps'', Arr [] []), (''textTemplates'', Arr [] []),
           (''variables'', Arr [] [])])"
proof -
  let ?flow = "Obj [(''decisions'', Obj [(''name'', Str ''D1''), (''rules'', Obj [(''name'', Str ''R1'')])])]"
  let ?out = "Obj [(''decisions'',
            Arr [Obj [(''name'', Str ''D1''),
                      (''rules'', Arr [Obj [(''name'', Str ''R1''), (''conditions'', Arr [] [])]] [])]]
             []),
           (''actionCalls'', Arr [] []), (''apexPluginCalls'', Arr [] []),
           (''assignments'', Arr [] []), (''collectionProcessors'', Arr [] []),
           (''customErrors'', Arr [] []), (''loops'', Arr [] []),
           (''recordCreates'', Arr [] []), (''recordDeletes'', Arr [] []),
           (''recordLookups'', Arr [] []), (''recordRollbacks'', Arr [] []),
           (''recordUpdates'', Arr [] []), (''screens'', Arr [] []),
           (''subflows'', Arr [] []), (''transforms'', Arr [] []),
           (''waits'', Arr [] []), (''orchestratedStages'', Arr [] []),
           (''choices'', Arr [] []), (''constants'', Arr [] []),
           (''dynamicChoiceSets'', Arr [] []), (''environments'', Arr [] []),
           (''formulas'', Arr [] []), (''processMetadataValues'', Arr [] []),
           (''stages'', Arr [] []), (''steps'', Arr [] []), (''textTemplates'', Arr [] []),
           (''variables'', Arr [] [])]"
  have e: "ensureArrayProperties (Suc (Suc 0)) ?flow = Inr ?out"
    by (simp add: ensureArrayProperties_def FLOW_ARRAY_PROPERTIES_def FLOW_ARRAY_NODES_def
        NESTED_ARRAY_CONFIG_def leaf_def ensureArray_def and_then_simps)
  from ensureArrayProperties_idempotent[of 0 ?flow ?out] e
  have "ensureArrayProperties (Suc (Suc 0)) ?out = Inr ?out" by blast
  with e show ?thesis by (rule conjI)
qed

text \<open>
  C2 at a screen whose field \<open>f1\<close> holds the field \<open>f2\<close>, which holds the field
  \<open>f3\<close>, each as a bare object. The recursive step builds the temporary object
  \<open>{ fields: [{ fields: f1.fields }] }\<close> and gives it to \<open>processNestedArrays\<close>, which
  looks for the keys of the schema table in it; \<open>fields\<close> is not one of them, so nothing
  is done. In the result \<open>f1.fields\<close> is an array, but its element \<open>f2\<close> has not been
  processed: \<open>f2.fields\<close> is still the bare object \<open>f3\<close> and \<open>f2\<close> has none of the
  other child arrays. This holds for every amount of fuel from two on.
\<close>

theorem processNestedArrays_recursion_stops:
  "processNestedArrays (Suc (Suc n))
     (Obj [(''screens'',
           Obj [(''name'', Str ''S''),
                (''fields'',
                 Obj [(''name'', Str ''f1''),
                      (''fields'',
                       Obj [(''name'', Str ''f2''),
                            (''fields'', Obj [(''name'', Str ''f3'')])])])])])
   = Inr (Obj [(''screens'',
            Arr [Obj [(''name'', Str ''S''),
                      (''fields'',
                       Arr [Obj [(''name'', Str ''f1''),
                                 (''fields'',
                                  Arr [Obj [(''name'', Str ''f2''),
                                            (''fields'', Obj [(''name'', Str ''f3'')])]] []),
                                 (''choiceReferences'', Arr [] []),
                                 (''inputParameters'', Arr [] []),
                                 (''outputParameters'', Arr [] []),
                                 (''dataTypeMappings'', Arr [] [])]]
                        []),
                      (''actions'', Arr [] []), (''rules'', Arr [] []),
                      (''triggers'', Arr [] [])]]
             [])])"
  by (simp add: NESTED_ARRAY_CONFIG_def leaf_def ensureArray_def and_then_simps)

text \<open>
  C1 at a screen whose field holds one nested field \<open>inner\<close>. After normalization the
  element \<open>inner\<close> of the array \<open>screens[0].fields[0].fields\<close> is reachable and is an
  element of a declared field group, but the fields that the schema table declares for
  it (\<open>fields\<close>, \<open>choiceReferences\<close>, ...) are absent, not sequences.
\<close>

theorem ensureArrayProperties_nested_element_not_normalized:
  "ensureArrayProperties (Suc (Suc n))
     (Obj [(''screens'', Obj [(''fields'', Obj [(''fields'', Obj [(''name'', Str ''inner'')])])])])
   = Inr (Obj [(''screens'',
            Arr [Obj [(''fields'',
                       Arr [Obj [(''fields'', Arr [Obj [(''name'', Str ''inner'')]] []),
                                 (''choiceReferences'', Arr [] []),
                                 (''inputParameters'', Arr [] []),
                                 (''outputParameters'', Arr [] []),
                                 (''dataTypeMappings'', Arr [] [])]]
                        []),
                      (''actions'', Arr [] []), (''rules'', Arr [] []),
                      (''triggers'', Arr [] [])]]
             []),
           (''decisions'', Arr [] []), (''actionCalls'', Arr [] []),
           (''apexPluginCalls'', Arr [] []), (''assignments'', Arr [] []),
           (''collectionProcessors'', Arr [] []),
           (''customErrors'', Arr [] []), (''loops'', Arr [] []),
           (''recordCreates'', Arr [] []), (''recordDeletes'', Arr [] []),
           (''recordLookups'', Arr [] []), (''recordRollbacks'', Arr [] []),
           (''recordUpdates'', Arr [] []), (''subflows'', Arr [] []),
           (''transforms'', Arr [] []), (''waits'', Arr [] []),
           (''orchestratedStages'', Arr [] []), (''choices'', Arr [] []),
           (''constants'', Arr [] []), (''dynamicChoiceSets'', Arr [] []),
           (''environments'', Arr [] []), (''formulas'', Arr [] []),
           (''processMetadataValues'', Arr [] []), (''stages'', Arr [] []),
           (''steps'', Arr [] []), (''textTemplates'', Arr [] []),
           (''variables'', Arr [] [])])
   \<and> field (Obj [(''name'', Str ''inner'')]) ''fields'' = Undefined
   \<and> field (Obj [(''name'', Str ''inner'')]) ''choiceReferences'' = Undefined"
  by (simp add: ensureArrayProperties_def FLOW_ARRAY_PROPERTIES_def FLOW_ARRAY_NODES_def
        NESTED_ARRAY_CONFIG_def leaf_def ensureArray_def and_then_simps)

subsection \<open>parse\<close>

lemma err_cases: "e \<noteq> OutOfFuel \<Longrightarrow> e = TypeError"
  by (cases e) auto

lemma parse_tree:
  assumes "xmlLib_parse xml = Inr tree"
  shows "parse xmlLib_parse (Suc (Suc n)) xml =
     (if tree = Undefined \<or> tree = Null then Some (Inl (ParseFailed (Engine TypeError)))
      else if \<not> truthy (field tree ''Flow'') then Some (Inl NoFlowElement)
      else (case ensureArrayProperties (Suc (Suc n)) (field tree ''Flow'') of
              Inl e \<Rightarrow> Some (Inl (ParseFailed (Engine TypeError)))
            | Inr flow \<Rightarrow> Some (Inr flow)))"
proof (cases "ensureArrayProperties (Suc (Suc n)) (field tree ''Flow'')")
  case (Inl e)
  then have "e = TypeError"
    using ensureArrayProperties_enough_fuel[of n "field tree ''Flow''"] err_cases by auto
  then show ?thesis using assms Inl
    by (simp add: parse_def get_eq catch_block_def)
next
  case (Inr flow)
  then show ?thesis using assms
    by (simp add: parse_def get_eq catch_block_def)
qed

lemma parse_codec_failure:
  assumes "xmlLib_parse xml = Inl m"
  shows "parse xmlLib_parse n xml =
     Some (Inl (if m = NO_FLOW_MESSAGE then Codec m else ParseFailed (Codec m)))"
  using assms by (simp add: parse_def catch_block_def)

text \<open>
  C8, as the code has it. With fuel for normalization, \<open>parse\<close> always returns or throws.
  It throws the distinct error, as it was thrown, exactly when the codec returns a tree
  whose \<open>Flow\<close> entry is falsy: absent, but also null or the empty string, as an empty
  root element may be parsed. A failure of the codec is wrapped, with its message kept
  in the new message, unless its message is exactly the sentence of the distinct error,
  in which case it is thrown again as it is. A TypeError raised while the tree is
  normalized is wrapped as well. \<open>parse\<close> succeeds only on a tree with a truthy
  \<open>Flow\<close> entry, and then returns that entry, normalized.
\<close>

theorem parse_outcomes:
  "parse xmlLib_parse (Suc (Suc n)) xml \<noteq> None
   \<and> ((parse xmlLib_parse (Suc (Suc n)) xml = Some (Inl NoFlowElement)) =
        (\<exists>tree. xmlLib_parse xml = Inr tree \<and> tree \<noteq> Undefined \<and> tree \<noteq> Null
           \<and> \<not> truthy (field tree ''Flow'')))
   \<and> (xmlLib_parse xml = Inl m \<longrightarrow>
        parse xmlLib_parse (Suc (Suc n)) xml =
          Some (Inl (if m = NO_FLOW_MESSAGE then Codec m else ParseFailed (Codec m))))
   \<and> (xmlLib_parse xml = Inr tree \<and> truthy (field tree ''Flow'')
        \<and> ensureArrayProperties (Suc (Suc n)) (field tree ''Flow'') = Inl e \<longrightarrow>
        parse xmlLib_parse (Suc (Suc n)) xml = Some (Inl (ParseFailed (Engine TypeError))))
   \<and> (parse xmlLib_parse (Suc (Suc n)) xml = Some (Inr flow) \<longrightarrow>
        (\<exists>tree. xmlLib_parse xml = Inr tree \<and> truthy (field tree ''Flow'')
           \<and> ensureArrayProperties (Suc (Suc n)) (field tree ''Flow'') = Inr flow))"
proof (cases "xmlLib_parse xml")
  case (Inl m')
  show ?thesis
    using Inl parse_codec_failure[of xmlLib_parse xml m' "Suc (Suc n)"] by simp
next
  case (Inr t)
  have nn: "truthy (field t k) \<Longrightarrow> t \<noteq> Undefined \<and> t \<noteq> Null" for k
    by (cases t) auto
  show ?thesis
    using Inr nn[of "''Flow''"]
    by (auto simp: parse_tree[of xmlLib_parse xml t n] split: sum.splits)
qed

text \<open>
  C8 as stated fails in both directions of its "exactly when". A codec that fails with
  the message \<open>XML does not contain a Flow element\<close> has its error surfaced as thrown,
  not wrapped, although no tree was parsed; and a tree that has the \<open>Flow\<close> entry, with
  the value null of an empty root element, gets the distinct error.
\<close>

theorem parse_distinct_error_counterexample:
  "parse (\<lambda>xml. Inl NO_FLOW_MESSAGE) 2 ''<Flow>'' = Some (Inl (Codec NO_FLOW_MESSAGE))
   \<and> parse (\<lambda>xml. Inr (Obj [(''Flow'', Null)])) 2 ''<Flow/>'' = Some (Inl NoFlowElement)
   \<and> ''Flow'' \<in> set (map fst [(''Flow'', Null)])"
  by (simp add: parse_def catch_block_def)

theorem parse_outcomes_witness:
  "parse (\<lambda>xml. if xml = ''<a/>'' then Inr (Obj [(''a'', Null)])
                else if xml = ''<Flow>x</Flow>'' then Inr (Obj [(''Flow'', Str ''x'')])
                else Inl ''unexpected token'') (Suc (Suc 0)) ''<a/>''
     = Some (Inl NoFlowElement)
   \<and> parse (\<lambda>xml. if xml = ''<a/>'' then Inr (Obj [(''a'', Null)])
                else if xml = ''<Flow>x</Flow>'' then Inr (Obj [(''Flow'', Str ''x'')])
                else Inl ''unexpected token'') (Suc (Suc 0)) ''<a''
     = Some (Inl (ParseFailed (Codec ''unexpected token'')))
   \<and> parse (\<lambda>xml. if xml = ''<a/>'' then Inr (Obj [(''a'', Null)])
                else if xml = ''<Flow>x</Flow>'' then Inr (Obj [(''Flow'', Str ''x'')])
                else Inl ''unexpected token'') (Suc (Suc 0)) ''<Flow>x</Flow>''
     = Some (Inl (ParseFailed (Engine TypeError)))"
proof -
  let ?codec = "\<lambda>xml. if xml = ''<a/>'' then Inr (Obj [(''a'', Null)])
                else if xml = ''<Flow>x</Flow>'' then Inr (Obj [(''Flow'', Str ''x'')])
                else Inl ''unexpected token''"
  have a: "\<exists>tree. ?codec ''<a/>'' = Inr tree \<and> tree \<noteq> Undefined \<and> tree \<noteq> Null
           \<and> \<not> truthy (field tree ''Flow'')"
    by simp
  have b: "?codec ''<a'' = Inl ''unexpected token''" by simp
  have c: "?codec ''<Flow>x</Flow>'' = Inr (Obj [(''Flow'', Str ''x'')])
        \<and> truthy (field (Obj [(''Flow'', Str ''x'')]) ''Flow'')
        \<and> ensureArrayProperties (Suc (Suc 0)) (field (Obj [(''Flow'', Str ''x'')]) ''Flow'')
            = Inl TypeError"
    by (simp add: ensureArrayProperties_def FLOW_ARRAY_PROPERTIES_def FLOW_ARRAY_NODES_def
        ensureArray_def and_then_simps)
  have "parse ?codec (Suc (Suc 0)) ''<a/>'' = Some (Inl NoFlowElement)"
    using parse_outcomes[of ?codec 0 "''<a/>''"] a by blast
  moreover have "parse ?codec (Suc (Suc 0)) ''<a'' = Some (Inl (ParseFailed (Codec ''unexpected token'')))"
    using parse_outcomes[of ?codec 0 "''<a''" "''unexpected token''"] b
    by (simp add: NO_FLOW_MESSAGE_def)
  moreover have "parse ?codec (Suc (Suc 0)) ''<Flow>x</Flow>'' = Some (Inl (ParseFailed (Engine TypeError)))"
    using parse_outcomes[of ?codec 0 "''<Flow>x</Flow>''" _ "Obj [(''Flow'', Str ''x'')]" TypeError] c
    by blast
  ultimately show ?thesis by blast
qed

subsection \<open>The node graph as a function of the tree\<close>

lemma truthy_not_nullish: "truthy c \<Longrightarrow> c \<noteq> Undefined \<and> c \<noteq> Null"
  by (cases c) auto


lemma retargeted_truthy [simp]: "truthy (retargeted s t c) = truthy c"
  by (simp add: retargeted_def)



lemma for_each_total:
  "\<forall>x \<in> set xs. f x = Inr (g x) \<Longrightarrow> for_each f xs = Inr (map g xs)"
  by (induction xs) (simp_all add: and_then_simps)

lemma for_each_Inr_all:
  "for_each f xs = Inr ys \<Longrightarrow> \<forall>x \<in> set xs. \<exists>y. f x = Inr y"
  by (induction xs arbitrary: ys) (auto simp: and_then_Inr_iff)


lemma rewired_slot_nullish [simp]:
  "(rewired_slot s t h k = Undefined) = (h = Undefined)"
  "(rewired_slot s t h k = Null) = (h = Null)"
  "truthy (rewired_slot s t h k) = truthy h"
  by (simp_all add: rewired_slot_def)

lemma rewired_members_nullish [simp]:
  "(rewired_members s t h k = Undefined) = (h = Undefined)"
  "(rewired_members s t h k = Null) = (h = Null)"
  "truthy (rewired_members s t h k) = truthy h"
  by (cases "field h k"; simp add: rewired_members_def)+



lemma members_ok_cong: "field n k = field n' k \<Longrightarrow> members_ok n k = members_ok n' k"
  by (simp add: members_ok_def)


lemma memberConnectors_eq:
  assumes "node \<noteq> Undefined" "node \<noteq> Null" "members_ok node k"
  shows "memberConnectors node k
     = Inr (map (\<lambda>m. field m ''connector'') (elements (field node k)))"
proof (cases "isArray (field node k)")
  case True
  then obtain es aps where a: "field node k = Arr es aps" using isArray_elements by blast
  have "\<forall>m \<in> set es. get m ''connector'' = Inr (field m ''connector'')"
    using assms(3) a by (simp add: members_ok_def get_eq)
  then have "for_each (\<lambda>m. get m ''connector'') es = Inr (map (\<lambda>m. field m ''connector'') es)"
    by (rule for_each_total)
  then show ?thesis using assms(1,2) a by (simp add: memberConnectors_def get_eq and_then_simps)
next
  case False
  then show ?thesis using assms(1,2)
    by (cases "field node k") (simp_all add: memberConnectors_def get_eq and_then_simps)
qed

lemma memberConnectors_ok:
  assumes "memberConnectors node k = Inr cs"
  shows "members_ok node k"
proof (cases "isArray (field node k)")
  case True
  then obtain es aps where a: "field node k = Arr es aps" using isArray_elements by blast
  with assms have "for_each (\<lambda>m. get m ''connector'') es = Inr cs"
    by (auto simp: memberConnectors_def and_then_Inr_iff get_Inr_iff)
  from for_each_Inr_all[OF this] show ?thesis
    using a by (auto simp: members_ok_def get_Inr_iff)
next
  case False
  then show ?thesis by (cases "field node k") (simp_all add: members_ok_def)
qed

lemma getConnectors_ok:
  assumes "getConnectors node = Inr cs"
  shows "connectors_ok node"
proof -
  from getConnectors_Inr[OF assms] obtain rs ps ws where
    m: "memberConnectors node ''rules'' = Inr rs"
       "memberConnectors node ''scheduledPaths'' = Inr ps"
       "memberConnectors node ''waitEvents'' = Inr ws"
    by blast
  have "node \<noteq> Undefined \<and> node \<noteq> Null"
    using m(1) by (auto simp: memberConnectors_def and_then_Inr_iff get_Inr_iff)
  then show ?thesis using m[THEN memberConnectors_ok] by (simp add: connectors_ok_def)
qed

lemma getConnectors_eq:
  assumes "connectors_ok node"
  shows "getConnectors node = Inr (connectors_in_order node)"
proof -
  have nn: "node \<noteq> Undefined" "node \<noteq> Null"
    and mo: "members_ok node ''rules''" "members_ok node ''scheduledPaths''"
      "members_ok node ''waitEvents''"
    using assms by (auto simp: connectors_ok_def)
  show ?thesis
    unfolding getConnectors_def connectors_in_order_def
    using nn
    by (simp add: get_eq and_then_simps memberConnectors_eq[OF nn mo(1)]
        memberConnectors_eq[OF nn mo(2)] memberConnectors_eq[OF nn mo(3)]
        filter_truthy_Cons filter_truthy_map del: filter.simps)
qed








lemma connectors_in_order_truthy: "c \<in> set (connectors_in_order node) \<Longrightarrow> truthy c"
  by (auto simp: connectors_in_order_def if_set_def split: if_splits)












lemma moved_truthy [simp]: "truthy (moved s t node) = truthy node"
  by (simp add: moved_def rewired_def)

lemma collectNodes_eq:
  "flow \<noteq> Undefined \<Longrightarrow> flow \<noteq> Null \<Longrightarrow>
   collectNodes flow props = Inr (concat (map (\<lambda>prop. elements (field flow prop)) props))"
proof (induction props)
  case Nil
  then show ?case by simp
next
  case (Cons p props)
  then show ?case
    by (cases "field flow p") (simp_all add: get_eq and_then_simps)
qed

lemma getFlowNodes_eq:
  "getFlowNodes flow =
     (if flow = Undefined \<or> flow = Null then Inl TypeError else Inr (nodes_of flow))"
  by (simp add: getFlowNodes_def get_eq and_then_simps collectNodes_eq nodes_of_def)

lemma filter_result_Inr_all:
  "filter_result f xs = Inr ys \<Longrightarrow> \<forall>x \<in> set xs. \<exists>b. f x = Inr b"
  by (induction xs arbitrary: ys) (auto simp: and_then_Inr_iff)


lemma isParent_ok: "isParent s node = Inr b \<Longrightarrow> connectors_ok node"
  by (auto simp: isParent_def and_then_Inr_iff dest: getConnectors_ok)

lemma findParentFlowNodes_ok:
  assumes "findParentFlowNodes flow s = Inr parents"
  shows "flow \<noteq> Undefined \<and> flow \<noteq> Null \<and> (\<forall>n \<in> set (nodes_of flow). connectors_ok n)"
proof -
  from assms obtain nodes where
    g: "getFlowNodes flow = Inr nodes" and f: "filter_result (isParent s) nodes = Inr parents"
    by (auto simp: findParentFlowNodes_def and_then_Inr_iff)
  have nn: "flow \<noteq> Undefined \<and> flow \<noteq> Null" and n: "nodes = nodes_of flow"
    using g by (auto simp: getFlowNodes_eq split: if_splits)
  show ?thesis using filter_result_Inr_all[OF f] isParent_ok nn n by blast
qed


lemma moved_collection_nullish [simp]:
  "(moved_collection s t flow p = Undefined) = (flow = Undefined)"
  "(moved_collection s t flow p = Null) = (flow = Null)"
  by (cases "field flow p"; simp add: moved_collection_def)+


lemma moved_collections_nullish [simp]:
  "(moved_collections s t flow props = Undefined) = (flow = Undefined)"
  "(moved_collections s t flow props = Null) = (flow = Null)"
  by (induction props arbitrary: flow) simp_all







lemma rewired_truthy [simp]: "truthy (rewired s t node) = truthy node"
  by (simp add: rewired_def)



lemma moved_flow_nullish [simp]:
  "(moved_flow s t flow = Undefined) = (flow = Undefined)"
  "(moved_flow s t flow = Null) = (flow = Null)"
  by (simp_all add: moved_flow_def)





lemma memberConnectors_error: "memberConnectors node k = Inl e \<Longrightarrow> e = TypeError"
proof -
  assume a: "memberConnectors node k = Inl e"
  show ?thesis
  proof (cases "get node k")
    case (Inl e')
    then show ?thesis using a by (auto simp: memberConnectors_def and_then_simps get_eq split: if_splits)
  next
    case (Inr members)
    show ?thesis
    proof (cases "isArray members")
      case True
      then obtain es aps where m: "members = Arr es aps" using isArray_elements by blast
      then have "for_each (\<lambda>m. get m ''connector'') es = Inl e"
        using a Inr by (simp add: memberConnectors_def and_then_simps)
      from for_each_error[OF this] obtain x where "get x ''connector'' = Inl e" by blast
      then show ?thesis by (auto simp: get_eq split: if_splits)
    next
      case False
      then show ?thesis using a Inr by (cases members) (simp_all add: memberConnectors_def and_then_simps)
    qed
  qed
qed

lemma getConnectors_error: "getConnectors node = Inl e \<Longrightarrow> e = TypeError"
  unfolding getConnectors_def and_then_Inl_iff
  by (auto simp: get_eq dest: memberConnectors_error split: if_splits)

text \<open>
  C6. \<open>getConnectors\<close> returns for every node that can be asked for its connectors, and
  what it returns is the list of the set connectors of the node in the fixed order of
  the specification: direct, default, next-value, no-more-values, fault, then the
  rules', the scheduled paths' and the wait events' connectors in their own order. Every
  entry of that list is a set connector: none is null, undefined or any other
  placeholder. On any other node, one that is null or undefined or has such a rule,
  scheduled path or wait event, \<open>getConnectors\<close> raises a TypeError.
\<close>

theorem getConnectors_fixed_order:
  "(connectors_ok node \<longrightarrow>
      getConnectors node = Inr (connectors_in_order node)
      \<and> (\<forall>c \<in> set (connectors_in_order node). truthy c \<and> c \<noteq> Null \<and> c \<noteq> Undefined))
   \<and> (\<not> connectors_ok node \<longrightarrow> getConnectors node = Inl TypeError)"
proof (intro conjI impI)
  assume "connectors_ok node"
  then show "getConnectors node = Inr (connectors_in_order node)" by (rule getConnectors_eq)
next
  show "\<forall>c \<in> set (connectors_in_order node). truthy c \<and> c \<noteq> Null \<and> c \<noteq> Undefined"
    using connectors_in_order_truthy truthy_not_nullish by blast
next
  assume n: "\<not> connectors_ok node"
  show "getConnectors node = Inl TypeError"
  proof (cases "getConnectors node")
    case (Inl e)
    then show ?thesis using getConnectors_error by blast
  next
    case (Inr cs)
    then show ?thesis using n getConnectors_ok by blast
  qed
qed

theorem getConnectors_fixed_order_witness:
  "connectors_ok
     (Obj [(''defaultConnector'', Obj [(''targetReference'', Str ''B'')]),
           (''connector'', Null),
           (''rules'', Arr [Obj [(''connector'', Obj [(''targetReference'', Str ''R'')])],
                            Obj [(''name'', Str ''r2'')]] []),
           (''waitEvents'',
              Arr [Obj [(''connector'', Obj [(''targetReference'', Str ''W'')])]] []),
           (''faultConnector'', Obj [(''targetReference'', Str ''F'')])])
   \<and> getConnectors
     (Obj [(''defaultConnector'', Obj [(''targetReference'', Str ''B'')]),
           (''connector'', Null),
           (''rules'', Arr [Obj [(''connector'', Obj [(''targetReference'', Str ''R'')])],
                            Obj [(''name'', Str ''r2'')]] []),
           (''waitEvents'',
              Arr [Obj [(''connector'', Obj [(''targetReference'', Str ''W'')])]] []),
           (''faultConnector'', Obj [(''targetReference'', Str ''F'')])])
   = Inr [Obj [(''targetReference'', Str ''B'')], Obj [(''targetReference'', Str ''F'')],
          Obj [(''targetReference'', Str ''R'')], Obj [(''targetReference'', Str ''W'')]]
   \<and> \<not> connectors_ok (Obj [(''rules'', Arr [Obj [(''name'', Str ''r1'')], Null] [])])
   \<and> getConnectors (Obj [(''rules'', Arr [Obj [(''name'', Str ''r1'')], Null] [])])
     = Inl TypeError"
proof -
  let ?node = "Obj [(''defaultConnector'', Obj [(''targetReference'', Str ''B'')]),
           (''connector'', Null),
           (''rules'', Arr [Obj [(''connector'', Obj [(''targetReference'', Str ''R'')])],
                            Obj [(''name'', Str ''r2'')]] []),
           (''waitEvents'',
              Arr [Obj [(''connector'', Obj [(''targetReference'', Str ''W'')])]] []),
           (''faultConnector'', Obj [(''targetReference'', Str ''F'')])]"
  let ?bad = "Obj [(''rules'', Arr [Obj [(''name'', Str ''r1'')], Null] [])]"
  have ok: "connectors_ok ?node" by (simp add: connectors_ok_def members_ok_def)
  have bad: "\<not> connectors_ok ?bad" by (simp add: connectors_ok_def members_ok_def)
  have c: "connectors_in_order ?node
      = [Obj [(''targetReference'', Str ''B'')], Obj [(''targetReference'', Str ''F'')],
          Obj [(''targetReference'', Str ''R'')], Obj [(''targetReference'', Str ''W'')]]"
    by (simp add: connectors_in_order_def if_set_def)
  have "getConnectors ?node = Inr (connectors_in_order ?node)"
    using getConnectors_fixed_order[of ?node] ok by blast
  moreover have "getConnectors ?bad = Inl TypeError"
    using getConnectors_fixed_order[of ?bad] bad by blast
  ultimately show ?thesis using ok bad c by simp
qed

subsection \<open>reparentNode\<close>




end
